theory Spec2Isabelle
  imports Complex_Main "HOL-Library.Word" "HOL-Library.Multiset" "HOL-Library.Log_Nat"
begin

unbundle bit_operations_syntax

section \<open>Bytes, errors and the library calls the scripts use\<close>

text \<open>
  The icon scripts (\<^verbatim>\<open>scripts/generate_app_icons.py\<close> and
  \<^verbatim>\<open>scripts/validate_app_icons.py\<close>) work on Python \<^verbatim>\<open>bytes\<close> values and
  unbounded integers. A byte is an 8-bit word, a byte string a list of them; sizes, lengths
  and offsets, which the code never makes negative, are natural numbers; the arithmetic
  of the scan-line filters and of the bounding box, where negative values occur, is on
  \<^typ>\<open>int\<close>.
\<close>

type_synonym byte = "8 word"

text \<open>
  How a call can end other than by returning. \<^verbatim>\<open>fail(message)\<close> of the validator prints the
  message and raises \<^verbatim>\<open>SystemExit(1)\<close>; the generator raises \<^verbatim>\<open>ValueError\<close>. The remaining
  constructors are the exceptions of the library calls, which the scripts never catch.
\<close>

datatype failure =
    IcoTooShort
  | InvalidIcoHeader
  | IcoDirectoryTruncated
  | IcoNotSquare nat nat nat
  | IcoSizeSetMismatch "nat list"
  | NotPng
  | UnsupportedEncodingOptions
  | MissingHeaderChunks
  | UnsupportedBitDepth nat
  | UnsupportedColorType nat
  | UnexpectedDecompressedSize
  | UnsupportedFilterType nat
  | FullyTransparent

datatype value_error =
    NotValidPng
  | NotSquare nat nat
  | ExceedsIcoMax
  | ByteOutOfRange

datatype error =
    Fail failure
  | ValueError value_error
  | StructError
  | ZlibError
  | IndexError
  | ZeroDivisionError
  | OverflowError

text \<open>\<^verbatim>\<open>xs[i]\<close> for an index that is not negative: out of range raises \<^verbatim>\<open>IndexError\<close>.\<close>

definition getitem :: "'a list \<Rightarrow> nat \<Rightarrow> error + 'a" where
  "getitem xs i = (if i < length xs then Inr (xs ! i) else Inl IndexError)"

text \<open>\<^verbatim>\<open>xs[a:b]\<close> for bounds that are not negative: a slice never raises, it is cut short.\<close>

definition py_slice :: "'a list \<Rightarrow> nat \<Rightarrow> nat \<Rightarrow> 'a list" where
  "py_slice xs a b = take (b - a) (drop a xs)"

text \<open>
  \<^verbatim>\<open>for i in items: body\<close> over a state, where the body may raise: the first error ends
  the loop.
\<close>

fun for_each :: "('i \<Rightarrow> 's \<Rightarrow> error + 's) \<Rightarrow> 'i list \<Rightarrow> 's \<Rightarrow> error + 's" where
  "for_each body [] s = Inr s"
| "for_each body (i # is) s =
     (case body i s of Inl e \<Rightarrow> Inl e | Inr s' \<Rightarrow> for_each body is s')"

text \<open>The PNG signature \<^verbatim>\<open>b"\x89PNG\r\n\x1a\n"\<close> and the chunk type names, as bytes.\<close>

definition PNG_SIGNATURE :: "byte list" where
  "PNG_SIGNATURE = [0x89, 0x50, 0x4E, 0x47, 0x0D, 0x0A, 0x1A, 0x0A]"

definition IHDR :: "byte list" where
  "IHDR = [0x49, 0x48, 0x44, 0x52]"

definition IDAT :: "byte list" where
  "IDAT = [0x49, 0x44, 0x41, 0x54]"

definition IEND :: "byte list" where
  "IEND = [0x49, 0x45, 0x4E, 0x44]"

subsection \<open>\<^verbatim>\<open>struct\<close>: fixed-width integers\<close>

text \<open>
  \<^verbatim>\<open>struct.pack\<close> raises \<^verbatim>\<open>struct.error\<close> for a value outside the range of its field;
  the formats used are \<^verbatim>\<open>B\<close> (one byte), \<^verbatim>\<open><H\<close> (16 bits, little-endian) and
  \<^verbatim>\<open><I\<close> (32 bits, little-endian).
\<close>

definition pack_B :: "nat \<Rightarrow> error + byte list" where
  "pack_B n = (if n < 256 then Inr [of_nat n] else Inl StructError)"

definition pack_H :: "nat \<Rightarrow> error + byte list" where
  "pack_H n = (if n < 65536 then Inr [of_nat n, of_nat (n div 256)] else Inl StructError)"

definition pack_I :: "nat \<Rightarrow> error + byte list" where
  "pack_I n =
     (if n < 4294967296
      then Inr [of_nat n, of_nat (n div 256), of_nat (n div 65536), of_nat (n div 16777216)]
      else Inl StructError)"

text \<open>Packing several fields in a row: the first field out of range raises.\<close>

fun pack_all :: "(error + byte list) list \<Rightarrow> error + byte list" where
  "pack_all [] = Inr []"
| "pack_all (f # fs) =
     (case f of Inl e \<Rightarrow> Inl e
      | Inr bs \<Rightarrow> (case pack_all fs of Inl e \<Rightarrow> Inl e | Inr rest \<Rightarrow> Inr (bs @ rest)))"

text \<open>Reading fields back: unsigned, little-endian (\<^verbatim>\<open><\<close>) or big-endian (\<^verbatim>\<open>>\<close>).\<close>

definition le16 :: "byte \<Rightarrow> byte \<Rightarrow> nat" where
  "le16 b0 b1 = unat b0 + 256 * unat b1"

definition le32 :: "byte \<Rightarrow> byte \<Rightarrow> byte \<Rightarrow> byte \<Rightarrow> nat" where
  "le32 b0 b1 b2 b3 = unat b0 + 256 * unat b1 + 65536 * unat b2 + 16777216 * unat b3"

definition be32 :: "byte \<Rightarrow> byte \<Rightarrow> byte \<Rightarrow> byte \<Rightarrow> nat" where
  "be32 b0 b1 b2 b3 = 16777216 * unat b0 + 65536 * unat b1 + 256 * unat b2 + unat b3"

text \<open>
  \<^verbatim>\<open>struct.unpack_from(fmt, data, offset)\<close> raises \<^verbatim>\<open>struct.error\<close> when fewer bytes than
  the format needs are left at the offset; bytes beyond the format are ignored.
\<close>

definition unpack_from_HHH :: "byte list \<Rightarrow> nat \<Rightarrow> error + (nat \<times> nat \<times> nat)" where
  "unpack_from_HHH data off =
     (if length data < off + 6 then Inl StructError
      else Inr (le16 (data ! off) (data ! (off + 1)),
                le16 (data ! (off + 2)) (data ! (off + 3)),
                le16 (data ! (off + 4)) (data ! (off + 5))))"

definition unpack_from_BB :: "byte list \<Rightarrow> nat \<Rightarrow> error + (nat \<times> nat)" where
  "unpack_from_BB data off =
     (if length data < off + 2 then Inl StructError
      else Inr (unat (data ! off), unat (data ! (off + 1))))"

definition unpack_from_I_be :: "byte list \<Rightarrow> nat \<Rightarrow> error + nat" where
  "unpack_from_I_be data off =
     (if length data < off + 4 then Inl StructError
      else Inr (be32 (data ! off) (data ! (off + 1)) (data ! (off + 2)) (data ! (off + 3))))"

text \<open>\<^verbatim>\<open>struct.unpack(">II", data)\<close> needs exactly eight bytes.\<close>

definition unpack_II_be :: "byte list \<Rightarrow> error + (nat \<times> nat)" where
  "unpack_II_be data =
     (if length data \<noteq> 8 then Inl StructError
      else Inr (be32 (data ! 0) (data ! 1) (data ! 2) (data ! 3),
                be32 (data ! 4) (data ! 5) (data ! 6) (data ! 7)))"

text \<open>
  \<^verbatim>\<open>struct.unpack_from(">IIBBBBB", chunk_data, 0)\<close>, the thirteen bytes of an IHDR chunk:
  width, height, bit depth, colour type, compression, filter and interlace method.
\<close>

definition unpack_from_IHDR ::
  "byte list \<Rightarrow> error + (nat \<times> nat \<times> nat \<times> nat \<times> nat \<times> nat \<times> nat)" where
  "unpack_from_IHDR chunk_data =
     (if length chunk_data < 13 then Inl StructError
      else Inr (be32 (chunk_data ! 0) (chunk_data ! 1) (chunk_data ! 2) (chunk_data ! 3),
                be32 (chunk_data ! 4) (chunk_data ! 5) (chunk_data ! 6) (chunk_data ! 7),
                unat (chunk_data ! 8), unat (chunk_data ! 9), unat (chunk_data ! 10),
                unat (chunk_data ! 11), unat (chunk_data ! 12)))"

section \<open>The generator: PNG dimensions and the ICO container\<close>

text \<open>
  \<^verbatim>\<open>png_dimensions\<close>: the argument is the content of the file at the path
  (\<^verbatim>\<open>png_path.read_bytes()\<close>).
\<close>

definition png_dimensions :: "byte list \<Rightarrow> error + (nat \<times> nat)" where
  "png_dimensions data =
     (if length data < 24 \<or> take 8 data \<noteq> PNG_SIGNATURE then Inl (ValueError NotValidPng)
      else unpack_II_be (py_slice data 16 24))"

text \<open>
  \<^verbatim>\<open>build_ico\<close>. The loop keeps the directory written so far, the offset of the next
  payload and the payloads written so far; the function's result is the byte string it
  writes to \<^verbatim>\<open>ico_path\<close>. The argument is the list of the files' contents, in the order of
  \<^verbatim>\<open>png_paths\<close>; the code reads each file twice, for the payload and for its dimensions,
  and the model takes both reads to return the same bytes.
\<close>

record ico_state =
  entries :: "byte list"
  offset :: nat
  payload_blob :: "byte list"

definition build_ico_step :: "byte list \<Rightarrow> ico_state \<Rightarrow> error + ico_state" where
  "build_ico_step payload s =
     (case png_dimensions payload of
        Inl e \<Rightarrow> Inl e
      | Inr (width, height) \<Rightarrow>
          if width \<noteq> height then Inl (ValueError (NotSquare width height))
          else if width > 256 \<or> height > 256 then Inl (ValueError ExceedsIcoMax)
          else
            let entry_width = (if width = 256 then 0 else width);
                entry_height = (if height = 256 then 0 else height)
            in (case pack_all [pack_B entry_width, pack_B entry_height, pack_B 0, pack_B 0,
                               pack_H 1, pack_H 32, pack_I (length payload), pack_I (offset s)] of
                  Inl e \<Rightarrow> Inl e
                | Inr entry \<Rightarrow>
                    Inr \<lparr>entries = entries s @ entry,
                         offset = offset s + length payload,
                         payload_blob = payload_blob s @ payload\<rparr>))"

definition build_ico :: "byte list list \<Rightarrow> error + byte list" where
  "build_ico image_payloads =
     (case for_each build_ico_step image_payloads
             \<lparr>entries = [], offset = 6 + 16 * length image_payloads, payload_blob = []\<rparr> of
        Inl e \<Rightarrow> Inl e
      | Inr s \<Rightarrow>
          (case pack_all [pack_H 0, pack_H 1, pack_H (length image_payloads)] of
             Inl e \<Rightarrow> Inl e
           | Inr header \<Rightarrow> Inr (header @ entries s @ payload_blob s)))"

section \<open>The validator: the ICO directory\<close>

text \<open>\<^verbatim>\<open>parse_ico_sizes\<close>; \<open>parse_entry\<close> is the body of its loop.\<close>

definition parse_entry :: "byte list \<Rightarrow> nat \<Rightarrow> nat list \<Rightarrow> error + nat list" where
  "parse_entry data idx sizes =
     (let offset = 6 + idx * 16
      in case unpack_from_BB data offset of
           Inl e \<Rightarrow> Inl e
         | Inr (w, h) \<Rightarrow>
             let width = (if w = 0 then 256 else w);
                 height = (if h = 0 then 256 else h)
             in if width \<noteq> height then Inl (Fail (IcoNotSquare idx width height))
                else Inr (sizes @ [width]))"

definition parse_ico_sizes :: "byte list \<Rightarrow> error + nat list" where
  "parse_ico_sizes data =
     (if length data < 6 then Inl (Fail IcoTooShort)
      else case unpack_from_HHH data 0 of
             Inl e \<Rightarrow> Inl e
           | Inr (reserved, kind, count') \<Rightarrow>
               if reserved \<noteq> 0 \<or> kind \<noteq> 1 then Inl (Fail InvalidIcoHeader)
               else
                 let expected_len = 6 + (count' * 16)
                 in if length data < expected_len then Inl (Fail IcoDirectoryTruncated)
                    else for_each (parse_entry data) [0..<count'] [])"

text \<open>
  The size check of the validator's \<^verbatim>\<open>main\<close>: the directory's sizes, sorted, are compared
  with the list \<^verbatim>\<open>EXPECTED_ICO_SIZES\<close>.
\<close>

definition EXPECTED_ICO_SIZES :: "nat list" where
  "EXPECTED_ICO_SIZES = [16, 24, 32, 40, 48, 64, 128, 256]"

definition main_ico_sizes :: "byte list \<Rightarrow> error + nat list" where
  "main_ico_sizes ico =
     (case parse_ico_sizes ico of
        Inl e \<Rightarrow> Inl e
      | Inr sizes \<Rightarrow>
          let ico_sizes = sort sizes
          in if ico_sizes \<noteq> EXPECTED_ICO_SIZES then Inl (Fail (IcoSizeSetMismatch ico_sizes))
             else Inr ico_sizes)"

section \<open>The layout of a built container\<close>

text \<open>
  Names for what \<^verbatim>\<open>build_ico\<close> and \<^verbatim>\<open>parse_ico_sizes\<close> compute on the way, used to state
  their properties: the side the header reader reports for a file, the sixteen bytes
  \<^verbatim>\<open>struct.pack("<BBBBHHII", ...)\<close> gives for a square image, the directory of a list of
  files from a first offset on, the conditions under which a file passes the checks of
  the loop body and its fields fit, the six bytes of the header, and the size a directory
  byte stands for.
\<close>

definition png_side :: "byte list \<Rightarrow> nat" where
  "png_side png = (case png_dimensions png of Inr (w, h) \<Rightarrow> w | Inl e \<Rightarrow> 0)"

definition dir_entry :: "nat \<Rightarrow> nat \<Rightarrow> nat \<Rightarrow> byte list" where
  "dir_entry side len off =
     [of_nat (if side = 256 then 0 else side), of_nat (if side = 256 then 0 else side),
      0, 0, 1, 0, 32, 0,
      of_nat len, of_nat (len div 256), of_nat (len div 65536), of_nat (len div 16777216),
      of_nat off, of_nat (off div 256), of_nat (off div 65536), of_nat (off div 16777216)]"

fun dir_entries :: "nat \<Rightarrow> byte list list \<Rightarrow> byte list list" where
  "dir_entries off [] = []"
| "dir_entries off (p # ps) = dir_entry (png_side p) (length p) off # dir_entries (off + length p) ps"

definition accepted_png :: "nat \<Rightarrow> byte list \<Rightarrow> bool" where
  "accepted_png off p \<longleftrightarrow>
     png_dimensions p = Inr (png_side p, png_side p) \<and> png_side p \<le> 256
     \<and> length p < 4294967296 \<and> off < 4294967296"

fun all_accepted :: "nat \<Rightarrow> byte list list \<Rightarrow> bool" where
  "all_accepted off [] = True"
| "all_accepted off (p # ps) = (accepted_png off p \<and> all_accepted (off + length p) ps)"

definition ico_header :: "nat \<Rightarrow> byte list" where
  "ico_header n = [0, 0, 1, 0, of_nat n, of_nat (n div 256)]"

definition resolved_size :: "byte \<Rightarrow> nat" where
  "resolved_size b = (if unat b = 0 then 256 else unat b)"

text \<open>
  The bytes up to which \<^verbatim>\<open>parse_ico_sizes\<close> can read: the header and, when there is one,
  the directory of as many entries as the header counts.
\<close>

definition directory_end :: "byte list \<Rightarrow> nat" where
  "directory_end data = (if length data < 6 then 6 else 6 + 16 * le16 (data ! 4) (data ! 5))"

text \<open>
  A smallest file the header reader accepts, for examples: the signature, the length and
  the type of an IHDR chunk, and the two dimensions.
\<close>

definition png_stub :: "nat \<Rightarrow> nat \<Rightarrow> byte list" where
  "png_stub w h =
     PNG_SIGNATURE @ [0, 0, 0, 13] @ IHDR @
     [of_nat (w div 16777216), of_nat (w div 65536), of_nat (w div 256), of_nat w,
      of_nat (h div 16777216), of_nat (h div 65536), of_nat (h div 256), of_nat h]"

text \<open>
  A container of a header and a directory only, for examples: one entry for each given
  size byte, as width and as height, with payload length and offset 0.
\<close>

definition plain_ico :: "byte list \<Rightarrow> byte list" where
  "plain_ico bs =
     ico_header (length bs) @
     concat (map (\<lambda>b. [b, b, 0, 0, 1, 0, 32, 0, 0, 0, 0, 0, 0, 0, 0, 0]) bs)"

section \<open>The Paeth predictor\<close>

text \<open>\<^verbatim>\<open>paeth_predictor\<close> of the validator, on Python integers.\<close>

definition paeth_predictor :: "int \<Rightarrow> int \<Rightarrow> int \<Rightarrow> int" where
  "paeth_predictor a b c =
     (let p = a + b - c;
          pa = \<bar>p - a\<bar>;
          pb = \<bar>p - b\<bar>;
          pc = \<bar>p - c\<bar>
      in if pa \<le> pb \<and> pa \<le> pc then a
         else if pb \<le> pc then b
         else c)"

text \<open>
  The predictor as the specification words it: the distances of \<open>p = a + b - c\<close> to the
  three neighbours, and the nearest neighbour in the order \<open>a\<close>, \<open>b\<close>, \<open>c\<close>.
\<close>

definition paeth_distances :: "int \<Rightarrow> int \<Rightarrow> int \<Rightarrow> int \<times> int \<times> int" where
  "paeth_distances a b c = (\<bar>(a + b - c) - a\<bar>, \<bar>(a + b - c) - b\<bar>, \<bar>(a + b - c) - c\<bar>)"

section \<open>The validator: decoding a PNG\<close>

subsection \<open>Walking the chunks\<close>

text \<open>
  The \<^verbatim>\<open>while\<close> loop of \<^verbatim>\<open>decode_png_rgba_alpha_bounds\<close>. Its state is the header fields
  \<^verbatim>\<open>width\<close>, \<^verbatim>\<open>height\<close>, \<^verbatim>\<open>bit_depth\<close> and \<^verbatim>\<open>color_type\<close> (all \<^verbatim>\<open>None\<close> until an IHDR
  chunk sets the four together) and the list \<^verbatim>\<open>idat_chunks\<close>. Each round moves the cursor
  past the length, the type, the data and the CRC of a chunk, so the loop ends.
\<close>

record chunk_state =
  header :: "(nat \<times> nat \<times> nat \<times> nat) option"
  idat_chunks :: "byte list list"

function read_chunks :: "byte list \<Rightarrow> nat \<Rightarrow> chunk_state \<Rightarrow> error + chunk_state" where
  "read_chunks data cursor st =
     (if cursor + 8 \<le> length data then
        (case unpack_from_I_be data cursor of
           Inl e \<Rightarrow> Inl e
         | Inr len \<Rightarrow>
             if py_slice data (cursor + 4) (cursor + 8) = IHDR then
               (case unpack_from_IHDR (py_slice data (cursor + 8) (cursor + 8 + len)) of
                  Inl e \<Rightarrow> Inl e
                | Inr (width, height, bit_depth, color_type, comp', filt, interlace) \<Rightarrow>
                    if comp' \<noteq> 0 \<or> filt \<noteq> 0 \<or> interlace \<noteq> 0
                    then Inl (Fail UnsupportedEncodingOptions)
                    else read_chunks data (cursor + 8 + len + 4)
                           (st\<lparr>header := Some (width, height, bit_depth, color_type)\<rparr>))
             else if py_slice data (cursor + 4) (cursor + 8) = IDAT then
               read_chunks data (cursor + 8 + len + 4)
                 (st\<lparr>idat_chunks := idat_chunks st @ [py_slice data (cursor + 8) (cursor + 8 + len)]\<rparr>)
             else if py_slice data (cursor + 4) (cursor + 8) = IEND then Inr st
             else read_chunks data (cursor + 8 + len + 4) st)
      else Inr st)"
  by pat_completeness auto
termination
  by (relation "measure (\<lambda>(data, cursor, st). length data - cursor)") auto

declare read_chunks.simps [simp del]

text \<open>The dictionary \<^verbatim>\<open>channels_by_color_type\<close>; \<^verbatim>\<open>.get\<close> is the lookup.\<close>

definition channels_by_color_type :: "nat \<rightharpoonup> nat" where
  "channels_by_color_type = [0 \<mapsto> 1, 2 \<mapsto> 3, 4 \<mapsto> 2, 6 \<mapsto> 4]"

subsection \<open>The decompressed scan lines\<close>

text \<open>
  The decoder up to its size check. \<^verbatim>\<open>zlib.decompress\<close> is a library call: it is the
  parameter \<open>inflate\<close>, \<open>None\<close> when it raises \<^verbatim>\<open>zlib.error\<close>. The result holds the width,
  the height, the colour type, the bytes per pixel and the decompressed payload.
\<close>

definition png_payload ::
  "(byte list \<Rightarrow> byte list option) \<Rightarrow> byte list \<Rightarrow> error + (nat \<times> nat \<times> nat \<times> nat \<times> byte list)" where
  "png_payload inflate data =
     (if length data < 8 \<or> take 8 data \<noteq> PNG_SIGNATURE then Inl (Fail NotPng)
      else case read_chunks data 8 \<lparr>header = None, idat_chunks = []\<rparr> of
             Inl e \<Rightarrow> Inl e
           | Inr st \<Rightarrow>
               (case header st of
                  None \<Rightarrow> Inl (Fail MissingHeaderChunks)
                | Some (width, height, bit_depth, color_type) \<Rightarrow>
                    if bit_depth \<noteq> 8 then Inl (Fail (UnsupportedBitDepth bit_depth))
                    else
                      (case channels_by_color_type color_type of
                         None \<Rightarrow> Inl (Fail (UnsupportedColorType color_type))
                       | Some channels \<Rightarrow>
                           (case inflate (concat (idat_chunks st)) of
                              None \<Rightarrow> Inl ZlibError
                            | Some payload \<Rightarrow>
                                let bytes_per_pixel = channels;
                                    row_bytes = width * bytes_per_pixel;
                                    expected = (row_bytes + 1) * height
                                in if length payload \<noteq> expected
                                   then Inl (Fail UnexpectedDecompressedSize)
                                   else Inr (width, height, color_type, bytes_per_pixel, payload)))))"

subsection \<open>Undoing the row filters\<close>

text \<open>
  A byte read as a Python integer, and \<^verbatim>\<open>recon[i] = v\<close> on a \<^verbatim>\<open>bytearray\<close>, which raises
  \<^verbatim>\<open>IndexError\<close> out of range and \<^verbatim>\<open>ValueError\<close> for a value that is not a byte.
\<close>

definition getbyte :: "byte list \<Rightarrow> nat \<Rightarrow> error + int" where
  "getbyte xs i = (case getitem xs i of Inl e \<Rightarrow> Inl e | Inr b \<Rightarrow> Inr (uint b))"

definition setbyte :: "byte list \<Rightarrow> nat \<Rightarrow> int \<Rightarrow> error + byte list" where
  "setbyte xs i v =
     (if \<not> i < length xs then Inl IndexError
      else if v < 0 \<or> 255 < v then Inl (ValueError ByteOutOfRange)
      else Inr (xs[i := word_of_int v]))"

text \<open>
  \<^verbatim>\<open>left = recon[i - bytes_per_pixel] if i >= bytes_per_pixel else 0\<close>, and the same read of
  the previous row for \<^verbatim>\<open>up_left\<close>.
\<close>

definition left_of :: "nat \<Rightarrow> byte list \<Rightarrow> nat \<Rightarrow> error + int" where
  "left_of bytes_per_pixel row i =
     (if i \<ge> bytes_per_pixel then getbyte row (i - bytes_per_pixel) else Inr 0)"

text \<open>The bodies of the four inner loops, for filter types 1 to 4.\<close>

definition sub_step :: "nat \<Rightarrow> byte list \<Rightarrow> nat \<Rightarrow> byte list \<Rightarrow> error + byte list" where
  "sub_step bytes_per_pixel raw i recon =
     (case left_of bytes_per_pixel recon i of
        Inl e \<Rightarrow> Inl e
      | Inr left \<Rightarrow>
          (case getbyte raw i of
             Inl e \<Rightarrow> Inl e
           | Inr r \<Rightarrow> setbyte recon i ((r + left) AND 255)))"

definition up_step :: "byte list \<Rightarrow> byte list \<Rightarrow> nat \<Rightarrow> byte list \<Rightarrow> error + byte list" where
  "up_step raw prev_row i recon =
     (case getbyte raw i of
        Inl e \<Rightarrow> Inl e
      | Inr r \<Rightarrow>
          (case getbyte prev_row i of
             Inl e \<Rightarrow> Inl e
           | Inr up \<Rightarrow> setbyte recon i ((r + up) AND 255)))"

definition average_step ::
  "nat \<Rightarrow> byte list \<Rightarrow> byte list \<Rightarrow> nat \<Rightarrow> byte list \<Rightarrow> error + byte list" where
  "average_step bytes_per_pixel raw prev_row i recon =
     (case left_of bytes_per_pixel recon i of
        Inl e \<Rightarrow> Inl e
      | Inr left \<Rightarrow>
          (case getbyte prev_row i of
             Inl e \<Rightarrow> Inl e
           | Inr up \<Rightarrow>
               (case getbyte raw i of
                  Inl e \<Rightarrow> Inl e
                | Inr r \<Rightarrow> setbyte recon i ((r + ((left + up) div 2)) AND 255))))"

definition paeth_step ::
  "nat \<Rightarrow> byte list \<Rightarrow> byte list \<Rightarrow> nat \<Rightarrow> byte list \<Rightarrow> error + byte list" where
  "paeth_step bytes_per_pixel raw prev_row i recon =
     (case left_of bytes_per_pixel recon i of
        Inl e \<Rightarrow> Inl e
      | Inr left \<Rightarrow>
          (case getbyte prev_row i of
             Inl e \<Rightarrow> Inl e
           | Inr up \<Rightarrow>
               (case left_of bytes_per_pixel prev_row i of
                  Inl e \<Rightarrow> Inl e
                | Inr up_left \<Rightarrow>
                    (case getbyte raw i of
                       Inl e \<Rightarrow> Inl e
                     | Inr r \<Rightarrow>
                         setbyte recon i ((r + paeth_predictor left up up_left) AND 255)))))"

text \<open>
  One row: \<^verbatim>\<open>recon\<close> starts as \<^verbatim>\<open>bytearray(row_bytes)\<close>, all zero; filter type 0 replaces
  its content by \<^verbatim>\<open>raw\<close> (\<^verbatim>\<open>recon[:] = raw\<close>).
\<close>

definition unfilter_row ::
  "nat \<Rightarrow> nat \<Rightarrow> nat \<Rightarrow> byte list \<Rightarrow> byte list \<Rightarrow> error + byte list" where
  "unfilter_row bytes_per_pixel row_bytes filt raw prev_row =
     (let recon = replicate row_bytes 0
      in if filt = 0 then Inr raw
         else if filt = 1 then for_each (sub_step bytes_per_pixel raw) [0..<row_bytes] recon
         else if filt = 2 then for_each (up_step raw prev_row) [0..<row_bytes] recon
         else if filt = 3 then
           for_each (average_step bytes_per_pixel raw prev_row) [0..<row_bytes] recon
         else if filt = 4 then
           for_each (paeth_step bytes_per_pixel raw prev_row) [0..<row_bytes] recon
         else Inl (Fail (UnsupportedFilterType filt)))"

text \<open>
  The loop over the rows: its state is the rows so far, the previous row and the position
  in the payload.
\<close>

record row_state =
  rows :: "byte list list"
  prev_row :: "byte list"
  pos :: nat

definition row_step :: "nat \<Rightarrow> nat \<Rightarrow> byte list \<Rightarrow> nat \<Rightarrow> row_state \<Rightarrow> error + row_state" where
  "row_step bytes_per_pixel row_bytes payload y s =
     (case getitem payload (pos s) of
        Inl e \<Rightarrow> Inl e
      | Inr filt \<Rightarrow>
          (case unfilter_row bytes_per_pixel row_bytes (unat filt)
                  (py_slice payload (pos s + 1) (pos s + 1 + row_bytes)) (prev_row s) of
             Inl e \<Rightarrow> Inl e
           | Inr recon \<Rightarrow>
               Inr \<lparr>rows = rows s @ [recon], prev_row = recon, pos = pos s + 1 + row_bytes\<rparr>))"

definition unfilter_rows :: "nat \<Rightarrow> nat \<Rightarrow> nat \<Rightarrow> byte list \<Rightarrow> error + byte list list" where
  "unfilter_rows bytes_per_pixel row_bytes height payload =
     (case for_each (row_step bytes_per_pixel row_bytes payload) [0..<height]
             \<lparr>rows = [], prev_row = replicate row_bytes 0, pos = 0\<rparr> of
        Inl e \<Rightarrow> Inl e
      | Inr s \<Rightarrow> Inr (rows s))"

text \<open>
  The decoded image, as the decoder holds it when the row loop is done: the header's
  width, height and colour type, and the reconstructed rows.
\<close>

record raster =
  width :: nat
  height :: nat
  color_type :: nat
  pixel_rows :: "byte list list"

definition decode_png :: "(byte list \<Rightarrow> byte list option) \<Rightarrow> byte list \<Rightarrow> error + raster" where
  "decode_png inflate data =
     (case png_payload inflate data of
        Inl e \<Rightarrow> Inl e
      | Inr (w, h, ct, bytes_per_pixel, payload) \<Rightarrow>
          (case unfilter_rows bytes_per_pixel (w * bytes_per_pixel) h payload of
             Inl e \<Rightarrow> Inl e
           | Inr rs \<Rightarrow> Inr \<lparr>width = w, height = h, color_type = ct, pixel_rows = rs\<rparr>))"

subsection \<open>The bounding box of the pixels that are not transparent\<close>

record bounds =
  min_x :: int
  min_y :: int
  max_x :: int
  max_y :: int

definition pixel_alpha :: "nat \<Rightarrow> byte list \<Rightarrow> nat \<Rightarrow> error + int" where
  "pixel_alpha ct row x =
     (if ct = 0 \<or> ct = 2 then Inr 255
      else if ct = 4 then getbyte row ((x * 2) + 1)
      else getbyte row ((x * 4) + 3))"

definition pixel_step :: "nat \<Rightarrow> byte list \<Rightarrow> nat \<Rightarrow> nat \<Rightarrow> bounds \<Rightarrow> error + bounds" where
  "pixel_step ct row y x b =
     (case pixel_alpha ct row x of
        Inl e \<Rightarrow> Inl e
      | Inr alpha \<Rightarrow>
          if alpha > 0
          then Inr \<lparr>min_x = min (min_x b) (int x), min_y = min (min_y b) (int y),
                    max_x = max (max_x b) (int x), max_y = max (max_y b) (int y)\<rparr>
          else Inr b)"

definition scan_row :: "nat \<Rightarrow> nat \<Rightarrow> nat \<times> byte list \<Rightarrow> bounds \<Rightarrow> error + bounds" where
  "scan_row ct w yrow b = for_each (pixel_step ct (snd yrow) (fst yrow)) [0..<w] b"

text \<open>
  \<^verbatim>\<open>a / b\<close> on integers raises \<^verbatim>\<open>ZeroDivisionError\<close> for \<open>b = 0\<close>. Otherwise it returns
  the \<^verbatim>\<open>float\<close>, an IEEE 754 double, that is nearest to the quotient, a tie going to the
  even significand, and raises \<^verbatim>\<open>OverflowError\<close> when that rounding reaches \<open>2 ^ 1024\<close>.
  A float is kept as the rational number it stands for (the sign of a zero is not kept).
  For a quotient of absolute value from \<open>2 ^ e\<close> up to \<open>2 ^ (e + 1)\<close> the doubles around it
  are the multiples of \<open>2 ^ (e - 52)\<close>, a significand of 53 bits, and the multiples of
  \<open>2 ^ - 1074\<close> where \<open>e\<close> is below \<open>- 1022\<close>.
\<close>

definition round_half_even :: "rat \<Rightarrow> int" where
  "round_half_even q =
     (let f = \<lfloor>q\<rfloor>; r = q - of_int f
      in if r < 1 / 2 then f else if 1 / 2 < r then f + 1 else if even f then f else f + 1)"

definition quotient_exponent :: "int \<Rightarrow> int \<Rightarrow> int" where
  "quotient_exponent n d =
     (let k = bitlen n - bitlen d
      in if of_int n < of_int d * power_int (2 :: rat) k then k - 1 else k)"

definition truediv :: "int \<Rightarrow> int \<Rightarrow> error + rat" where
  "truediv a b =
     (if b = 0 then Inl ZeroDivisionError
      else if a = 0 then Inr 0
      else
        let n = \<bar>a\<bar>; d = \<bar>b\<bar>;
            q = max (quotient_exponent n d - 52) (- 1074);
            x = of_int (round_half_even (of_int n / (of_int d * power_int 2 q))) * power_int 2 q
        in if 2 ^ 1024 \<le> x then Inl OverflowError
           else Inr (if (a < 0) = (b < 0) then x else - x))"

definition alpha_bounds :: "raster \<Rightarrow> error + (nat \<times> nat \<times> rat \<times> rat)" where
  "alpha_bounds img =
     (case for_each (scan_row (color_type img) (width img)) (enumerate 0 (pixel_rows img))
             \<lparr>min_x = int (width img), min_y = int (height img), max_x = - 1, max_y = - 1\<rparr> of
        Inl e \<Rightarrow> Inl e
      | Inr b \<Rightarrow>
          if max_x b < min_x b \<or> max_y b < min_y b then Inl (Fail FullyTransparent)
          else
            (case truediv (max_x b - min_x b + 1) (int (width img)) of
               Inl e \<Rightarrow> Inl e
             | Inr coverage_w \<Rightarrow>
                 (case truediv (max_y b - min_y b + 1) (int (height img)) of
                    Inl e \<Rightarrow> Inl e
                  | Inr coverage_h \<Rightarrow> Inr (width img, height img, coverage_w, coverage_h))))"

text \<open>\<^verbatim>\<open>decode_png_rgba_alpha_bounds\<close>, whole.\<close>

definition decode_png_rgba_alpha_bounds ::
  "(byte list \<Rightarrow> byte list option) \<Rightarrow> byte list \<Rightarrow> error + (nat \<times> nat \<times> rat \<times> rat)" where
  "decode_png_rgba_alpha_bounds inflate data =
     (case decode_png inflate data of
        Inl e \<Rightarrow> Inl e
      | Inr img \<Rightarrow> alpha_bounds img)"

section \<open>The filter rules and the scan lines, for the statements\<close>

text \<open>
  The byte to the left within a row, \<open>bpp\<close> bytes back, or 0 in the first pixel.
\<close>

definition left_int :: "nat \<Rightarrow> byte list \<Rightarrow> nat \<Rightarrow> int" where
  "left_int bpp row i = (if i \<ge> bpp then uint (row ! (i - bpp)) else 0)"

text \<open>
  The five reconstruction rules as the specification words them: for filter type \<open>t\<close>, the
  filtered byte \<open>x\<close>, the byte \<open>a\<close> to the left, the byte \<open>b\<close> above and the byte \<open>c\<close> to the
  upper left, with the additions modulo 256 and the average rounded down.
\<close>

definition filter_rule :: "nat \<Rightarrow> int \<Rightarrow> int \<Rightarrow> int \<Rightarrow> int \<Rightarrow> int" where
  "filter_rule t x a b c =
     (if t = 0 then x
      else if t = 1 then (x + a) mod 256
      else if t = 2 then (x + b) mod 256
      else if t = 3 then (x + (a + b) div 2) mod 256
      else (x + paeth_predictor a b c) mod 256)"

text \<open>
  In a decompressed payload of rows of \<open>n\<close> bytes, row \<open>y\<close> starts at \<open>y \<times> (n + 1)\<close> with
  its filter-type byte, followed by its \<open>n\<close> filtered bytes. The row above row \<open>y\<close> is the
  reconstructed row \<open>y - 1\<close>, and a row of zeros for the first row.
\<close>

definition scanline_filter :: "byte list \<Rightarrow> nat \<Rightarrow> nat \<Rightarrow> nat" where
  "scanline_filter payload n y = unat (payload ! (y * (n + 1)))"

definition scanline_byte :: "byte list \<Rightarrow> nat \<Rightarrow> nat \<Rightarrow> nat \<Rightarrow> int" where
  "scanline_byte payload n y i = uint (payload ! (y * (n + 1) + 1 + i))"

definition row_above :: "nat \<Rightarrow> byte list list \<Rightarrow> nat \<Rightarrow> byte list" where
  "row_above n rs y = (if y = 0 then replicate n 0 else rs ! (y - 1))"

text \<open>
  Row \<open>y\<close> of the rows \<open>rs\<close> follows the rule of its filter type; and what the loop over the
  rows has established when it has done \<open>y\<close> rows.
\<close>

definition row_reconstructed :: "nat \<Rightarrow> nat \<Rightarrow> byte list \<Rightarrow> byte list list \<Rightarrow> nat \<Rightarrow> bool" where
  "row_reconstructed bpp n payload rs y \<longleftrightarrow>
     length (rs ! y) = n \<and>
     (\<forall>i<n. uint (rs ! y ! i) =
        filter_rule (scanline_filter payload n y) (scanline_byte payload n y i)
          (left_int bpp (rs ! y) i)
          (uint (row_above n rs y ! i)) (left_int bpp (row_above n rs y) i))"

definition rows_invariant ::
  "nat \<Rightarrow> nat \<Rightarrow> byte list \<Rightarrow> nat \<Rightarrow> row_state \<Rightarrow> bool" where
  "rows_invariant bpp n payload y s \<longleftrightarrow>
     pos s = y * (n + 1) \<and> length (rows s) = y \<and> prev_row s = row_above n (rows s) y \<and>
     length (prev_row s) = n \<and> (\<forall>y'<y. row_reconstructed bpp n payload (rows s) y')"

text \<open>
  For examples, a decompressor that agrees with \<^verbatim>\<open>zlib.decompress\<close> on the streams it
  reads: the streams of one stored block, which \<^verbatim>\<open>zlib.compress\<close> writes at level 0 for a
  short input. Such a stream is the header \<^verbatim>\<open>78 01\<close>, the final stored block (the byte
  \<^verbatim>\<open>01\<close>, the length and its complement in 16 bits each, little-endian, then the bytes as
  they are) and the Adler-32 checksum of the bytes, big-endian. Any other stream is refused
  here.
\<close>

definition adler32 :: "byte list \<Rightarrow> nat \<times> nat" where
  "adler32 bs =
     fold (\<lambda>b (a, s). let a' = (a + unat b) mod 65521 in (a', (s + a') mod 65521)) bs (1, 0)"

definition zlib_stored :: "byte list \<Rightarrow> byte list option" where
  "zlib_stored stream =
     (let n = length stream - 11;
          body = take n (drop 7 stream);
          (a, s) = adler32 body
      in if 11 \<le> length stream \<and> take 3 stream = [120, 1, 1]
            \<and> le16 (stream ! 3) (stream ! 4) = n
            \<and> le16 (stream ! 5) (stream ! 6) = 65535 - n
            \<and> drop (7 + n) stream
                = [of_nat (s div 256), of_nat (s mod 256), of_nat (a div 256), of_nat (a mod 256)]
         then Some body else None)"

text \<open>
  A PNG file of two by five pixels in greyscale with alpha, for examples: the signature,
  the IHDR chunk, one IDAT chunk holding a compressed stream of 36 bytes with its CRC,
  and the IEND chunk.
\<close>

definition gray_alpha_2x5 :: "byte list \<Rightarrow> byte list \<Rightarrow> byte list" where
  "gray_alpha_2x5 stream crc =
     PNG_SIGNATURE @
     [0, 0, 0, 13] @ IHDR @ [0, 0, 0, 2, 0, 0, 0, 5, 8, 4, 0, 0, 0] @ [197, 186, 245, 23] @
     [0, 0, 0, 36] @ IDAT @ stream @ crc @
     [0, 0, 0, 0] @ IEND @ [174, 66, 96, 130]"

section \<open>The decoded image and its alpha channel, for the statements\<close>

text \<open>
  The alpha value of the pixel in column \<open>x\<close> of row \<open>y\<close>, as the specification words it:
  255 for greyscale and truecolour, the second of two bytes for greyscale with alpha, the
  fourth of four bytes for truecolour with alpha. The pixels that count are those with an
  alpha value above 0.
\<close>

definition alpha :: "raster \<Rightarrow> nat \<Rightarrow> nat \<Rightarrow> int" where
  "alpha img x y =
     (if color_type img = 0 \<or> color_type img = 2 then 255
      else if color_type img = 4 then uint (pixel_rows img ! y ! (x * 2 + 1))
      else uint (pixel_rows img ! y ! (x * 4 + 3)))"

definition opaque_pixels :: "raster \<Rightarrow> (nat \<times> nat) set" where
  "opaque_pixels img = {(x, y). x < width img \<and> y < height img \<and> 0 < alpha img x y}"

text \<open>
  The invariant of a decoded image: a supported colour type, as many rows as the height,
  every row of width times channel count bytes, and a width and a height that fit the
  four bytes they are read from. Every image \<open>decode_png\<close> returns has it (lemma
  \<open>decode_png_raster_invariant\<close> below).
\<close>

definition raster_invariant :: "raster \<Rightarrow> bool" where
  "raster_invariant img \<longleftrightarrow>
     (\<exists>channels. channels_by_color_type (color_type img) = Some channels
        \<and> length (pixel_rows img) = height img
        \<and> (\<forall>row\<in>set (pixel_rows img). length row = width img * channels))
     \<and> width img < 4294967296 \<and> height img < 4294967296"

text \<open>
  One step of the bounding box, and the pixels that count in the order of the scan.
\<close>

definition add_pixel :: "nat \<times> nat \<Rightarrow> bounds \<Rightarrow> bounds" where
  "add_pixel p b =
     \<lparr>min_x = min (min_x b) (int (fst p)), min_y = min (min_y b) (int (snd p)),
      max_x = max (max_x b) (int (fst p)), max_y = max (max_y b) (int (snd p))\<rparr>"

definition opaque_list :: "raster \<Rightarrow> (nat \<times> nat) list" where
  "opaque_list img =
     concat (map (\<lambda>y. map (\<lambda>x. (x, y)) (filter (\<lambda>x. 0 < alpha img x y) [0..<width img]))
                 [0..<height img])"

section \<open>Properties\<close>

subsection \<open>Loops, bytes and fixed-width fields\<close>

lemma for_each_append:
  "for_each body (xs @ ys) s =
     (case for_each body xs s of Inl e \<Rightarrow> Inl e | Inr s' \<Rightarrow> for_each body ys s')"
  by (induction xs arbitrary: s) (auto split: sum.splits)

lemma for_each_cong_on:
  "(\<And>i s. i \<in> set xs \<Longrightarrow> f i s = g i s) \<Longrightarrow> for_each f xs s = for_each g xs s"
  by (induction xs arbitrary: s) (auto split: sum.splits)

lemma for_each_range_invariant:
  assumes "P 0 s0"
    and "\<And>i s. i < n \<Longrightarrow> P i s \<Longrightarrow> \<exists>s'. body i s = Inr s' \<and> P (Suc i) s'"
  shows "\<exists>s'. for_each body [0..<n] s0 = Inr s' \<and> P n s'"
  using assms(2)
proof (induction n)
  case 0
  then show ?case using assms(1) by simp
next
  case (Suc n)
  then obtain s1 where s1: "for_each body [0..<n] s0 = Inr s1" "P n s1"
    by (metis less_Suc_eq)
  from Suc.prems [of n s1] s1 obtain s2 where "body n s1 = Inr s2" "P (Suc n) s2"
    by auto
  with s1 show ?case by (simp add: for_each_append)
qed

lemma unat_byte_of_nat: "n < 256 \<Longrightarrow> unat (of_nat n :: byte) = n"
  by (simp add: unat_of_nat take_bit_eq_mod)

lemma le16_pack: "n < 65536 \<Longrightarrow> le16 (of_nat n) (of_nat (n div 256)) = n"
  by (simp add: le16_def unat_of_nat take_bit_eq_mod)

lemma le32_pack:
  assumes "n < 4294967296"
  shows "le32 (of_nat n) (of_nat (n div 256)) (of_nat (n div 65536)) (of_nat (n div 16777216)) = n"
proof -
  define a where "a = n div 256"
  define b where "b = a div 256"
  define c where "c = b div 256"
  define r0 where "r0 = n mod 256"
  define r1 where "r1 = a mod 256"
  define r2 where "r2 = b mod 256"
  have n: "n = r0 + 256 * a" and a: "a = r1 + 256 * b" and b: "b = r2 + 256 * c"
    by (simp_all add: a_def b_def c_def r0_def r1_def r2_def)
  have c256: "c < 256"
    using assms n a b by linarith
  have d2: "n div 65536 = b"
    by (simp add: b_def a_def div_mult2_eq)
  have d3: "n div 16777216 = c"
    by (simp add: c_def b_def a_def div_mult2_eq)
  have "le32 (of_nat n) (of_nat a) (of_nat b) (of_nat c) = r0 + 256 * r1 + 65536 * r2 + 16777216 * c"
    using c256 by (simp add: le32_def unat_of_nat take_bit_eq_mod r0_def r1_def r2_def)
  also have "\<dots> = n"
    using n a b by linarith
  finally show ?thesis
    by (simp add: d2 d3 a_def)
qed

subsection \<open>The loop of the builder\<close>

text \<open>
  The loop body succeeds exactly on a file that passes the checks and whose fields fit,
  and then appends one directory entry and the payload; so \<^verbatim>\<open>build_ico\<close> returns exactly
  when every file is accepted at its offset and the count fits 16 bits.
\<close>

lemma build_ico_step_Inr:
  assumes "build_ico_step p s = Inr s'"
  shows "accepted_png (offset s) p"
    and "s' = \<lparr>entries = entries s @ dir_entry (png_side p) (length p) (offset s),
               offset = offset s + length p, payload_blob = payload_blob s @ p\<rparr>"
  using assms
  by (auto simp: build_ico_step_def accepted_png_def png_side_def dir_entry_def
      pack_B_def pack_H_def pack_I_def Let_def split: sum.splits if_splits prod.splits)

lemma build_ico_step_accepted:
  assumes "accepted_png (offset s) p"
  shows "build_ico_step p s =
         Inr \<lparr>entries = entries s @ dir_entry (png_side p) (length p) (offset s),
               offset = offset s + length p, payload_blob = payload_blob s @ p\<rparr>"
  using assms
  by (auto simp: build_ico_step_def accepted_png_def png_side_def dir_entry_def
      pack_B_def pack_H_def pack_I_def Let_def split: sum.splits if_splits prod.splits)

lemma build_loop_iff:
  "for_each build_ico_step ps s = Inr s' \<longleftrightarrow>
     all_accepted (offset s) ps \<and>
     s' = \<lparr>entries = entries s @ concat (dir_entries (offset s) ps),
           offset = offset s + sum_list (map length ps),
           payload_blob = payload_blob s @ concat ps\<rparr>"
proof (induction ps arbitrary: s)
  case Nil
  then show ?case by auto
next
  case (Cons p ps)
  show ?case
  proof (cases "build_ico_step p s")
    case (Inl e)
    then have "\<not> accepted_png (offset s) p"
      using build_ico_step_accepted by fastforce
    with Inl show ?thesis by simp
  next
    case (Inr s1)
    note step = build_ico_step_Inr [OF Inr]
    show ?thesis
      using Inr step(1) by (simp add: Cons.IH step(2) add.assoc)
  qed
qed

lemma build_ico_iff:
  "build_ico ps = Inr out \<longleftrightarrow>
     all_accepted (6 + 16 * length ps) ps \<and> length ps < 65536 \<and>
     out = ico_header (length ps) @ concat (dir_entries (6 + 16 * length ps) ps) @ concat ps"
proof (cases "for_each build_ico_step ps
                \<lparr>entries = [], offset = 6 + 16 * length ps, payload_blob = []\<rparr>")
  case (Inl e)
  then have "\<not> all_accepted (6 + 16 * length ps) ps"
    using build_loop_iff [of ps "\<lparr>entries = [], offset = 6 + 16 * length ps, payload_blob = []\<rparr>"]
    by auto
  with Inl show ?thesis by (simp add: build_ico_def)
next
  case (Inr s')
  then show ?thesis
    using build_loop_iff [of ps "\<lparr>entries = [], offset = 6 + 16 * length ps, payload_blob = []\<rparr>" s']
    by (auto simp: build_ico_def pack_H_def ico_header_def)
qed

subsection \<open>The bytes of the directory\<close>

text \<open>
  The directory is a concatenation of blocks of sixteen bytes, so byte \<open>j\<close> of entry \<open>i\<close> is
  at position \<open>6 + 16 \<times> i + j\<close> of the container.
\<close>

lemma length_dir_entries [simp]: "length (dir_entries off ps) = length ps"
  by (induction ps arbitrary: off) auto

lemma length_dir_entry [simp]: "length (dir_entry w l off) = 16"
  by (simp add: dir_entry_def)

lemma dir_entries_all_16: "e \<in> set (dir_entries off ps) \<Longrightarrow> length e = 16"
  by (induction ps arbitrary: off) auto

lemma length_concat_blocks:
  "(\<And>e. e \<in> set es \<Longrightarrow> length e = k) \<Longrightarrow> length (concat es) = k * length es"
  by (induction es) auto

lemma nth_concat_blocks:
  "(\<And>e. e \<in> set es \<Longrightarrow> length e = k) \<Longrightarrow> i < length es \<Longrightarrow> j < k \<Longrightarrow>
   concat es ! (k * i + j) = es ! i ! j"
proof (induction es arbitrary: i)
  case Nil
  then show ?case by simp
next
  case (Cons e es)
  show ?case
  proof (cases i)
    case 0
    then show ?thesis using Cons.prems by (simp add: nth_append)
  next
    case (Suc i')
    have "k * i + j = length e + (k * i' + j)"
      using Cons.prems(1) [of e] Suc by simp
    then have "concat (e # es) ! (k * i + j) = concat es ! (k * i' + j)"
      by (simp add: nth_append)
    then show ?thesis
      using Cons.IH [of i'] Cons.prems Suc by simp
  qed
qed

lemma dir_entries_nth:
  "i < length ps \<Longrightarrow>
   dir_entries off ps ! i =
     dir_entry (png_side (ps ! i)) (length (ps ! i)) (off + sum_list (map length (take i ps)))"
proof (induction ps arbitrary: off i)
  case Nil
  then show ?case by simp
next
  case (Cons p ps)
  then show ?case by (cases i) (simp_all add: add.assoc)
qed

lemma all_accepted_nth:
  "all_accepted off ps \<Longrightarrow> i < length ps \<Longrightarrow>
   accepted_png (off + sum_list (map length (take i ps))) (ps ! i)"
proof (induction ps arbitrary: off i)
  case Nil
  then show ?case by simp
next
  case (Cons p ps)
  show ?case
  proof (cases i)
    case 0
    then show ?thesis using Cons.prems by simp
  next
    case (Suc j)
    then have "accepted_png (off + length p + sum_list (map length (take j ps))) (ps ! j)"
      using Cons.prems by (intro Cons.IH) simp_all
    then show ?thesis using Suc by (simp add: add.assoc)
  qed
qed

lemma all_accepted_iff_nth:
  "all_accepted off ps \<longleftrightarrow>
   (\<forall>i<length ps. accepted_png (off + sum_list (map length (take i ps))) (ps ! i))"
proof (induction ps arbitrary: off)
  case Nil
  then show ?case by simp
next
  case (Cons p ps)
  have "(\<forall>i<length (p # ps). accepted_png (off + sum_list (map length (take i (p # ps)))) ((p # ps) ! i))
        \<longleftrightarrow> accepted_png off p \<and>
            (\<forall>i<length ps. accepted_png (off + length p + sum_list (map length (take i ps))) (ps ! i))"
    by (auto simp: less_Suc_eq_0_disj add.assoc)
  then show ?case using Cons.IH [of "off + length p"] by simp
qed

lemma built_directory_byte:
  assumes "i < length ps" "j < 16"
  shows "(ico_header (length ps) @ concat (dir_entries off ps) @ rest) ! (6 + (16 * i + j))
         = dir_entries off ps ! i ! j"
proof -
  have len: "length (concat (dir_entries off ps)) = 16 * length ps"
    using length_concat_blocks [of "dir_entries off ps" 16] dir_entries_all_16 by simp
  have "16 * i + j < 16 * length ps"
    using assms by linarith
  then have "(concat (dir_entries off ps) @ rest) ! (16 * i + j)
             = concat (dir_entries off ps) ! (16 * i + j)"
    by (simp add: nth_append len)
  moreover have "(ico_header (length ps) @ concat (dir_entries off ps) @ rest) ! (6 + (16 * i + j))
                 = (concat (dir_entries off ps) @ rest) ! (16 * i + j)"
    by (simp add: nth_append ico_header_def)
  ultimately show ?thesis
    using nth_concat_blocks [of "dir_entries off ps" 16 i j] dir_entries_all_16 assms by simp
qed

subsection \<open>The loop of the reader\<close>

text \<open>
  On a directory whose entries have equal width and height bytes the reader returns the
  sizes those bytes stand for; and conversely, when the reader returns, the bytes were equal
  and the sizes are these.
\<close>

lemma parse_entry_square:
  assumes "6 + idx * 16 + 2 \<le> length data"
    and "data ! (6 + idx * 16) = data ! (6 + idx * 16 + 1)"
  shows "parse_entry data idx sizes = Inr (sizes @ [resolved_size (data ! (6 + idx * 16))])"
  using assms by (simp add: parse_entry_def unpack_from_BB_def resolved_size_def Let_def)

lemma parse_loop_square:
  assumes "6 + n * 16 \<le> length data"
    and "\<And>i. i < n \<Longrightarrow> data ! (6 + i * 16) = data ! (6 + i * 16 + 1)"
  shows "for_each (parse_entry data) [0..<n] acc
         = Inr (acc @ map (\<lambda>i. resolved_size (data ! (6 + i * 16))) [0..<n])"
  using assms
proof (induction n)
  case 0
  then show ?case by simp
next
  case (Suc n)
  have "for_each (parse_entry data) [0..<n] acc
        = Inr (acc @ map (\<lambda>i. resolved_size (data ! (6 + i * 16))) [0..<n])"
    using Suc by simp
  moreover have "parse_entry data n sizes = Inr (sizes @ [resolved_size (data ! (6 + n * 16))])"
    for sizes using Suc.prems by (intro parse_entry_square) simp_all
  ultimately show ?case by (simp add: for_each_append)
qed

lemma resolved_size_of_side:
  "n \<le> 256 \<Longrightarrow> resolved_size (of_nat (if n = 256 then 0 else n)) = (if n = 0 then 256 else n)"
  by (auto simp: resolved_size_def unat_of_nat take_bit_eq_mod)

lemma dir_entry_bytes:
  "dir_entry w l off ! 0 = of_nat (if w = 256 then 0 else w)"
  "dir_entry w l off ! 1 = of_nat (if w = 256 then 0 else w)"
  "dir_entry w l off ! Suc 0 = of_nat (if w = 256 then 0 else w)"
  by (simp_all add: dir_entry_def)

lemma built_size_bytes:
  assumes "i < length ps"
  shows "(ico_header (length ps) @ concat (dir_entries off ps) @ rest) ! (6 + i * 16)
           = of_nat (if png_side (ps ! i) = 256 then 0 else png_side (ps ! i))"
    and "(ico_header (length ps) @ concat (dir_entries off ps) @ rest) ! (6 + i * 16 + 1)
           = of_nat (if png_side (ps ! i) = 256 then 0 else png_side (ps ! i))"
proof -
  have "6 + i * 16 = 6 + (16 * i + 0)" "6 + i * 16 + 1 = 6 + (16 * i + 1)"
    by simp_all
  then show "(ico_header (length ps) @ concat (dir_entries off ps) @ rest) ! (6 + i * 16)
           = of_nat (if png_side (ps ! i) = 256 then 0 else png_side (ps ! i))"
    and "(ico_header (length ps) @ concat (dir_entries off ps) @ rest) ! (6 + i * 16 + 1)
           = of_nat (if png_side (ps ! i) = 256 then 0 else png_side (ps ! i))"
    using built_directory_byte [OF assms, of 0 off rest] built_directory_byte [OF assms, of 1 off rest]
    by (simp_all only: dir_entries_nth [OF assms] dir_entry_bytes)
qed

lemma length_built:
  "length (ico_header (length ps) @ concat (dir_entries off ps) @ rest)
   = 6 + 16 * length ps + length rest"
  using length_concat_blocks [of "dir_entries off ps" 16] dir_entries_all_16
  by (simp add: ico_header_def)

lemma header_of_built:
  assumes "n < 65536"
  shows "unpack_from_HHH (ico_header n @ rest) 0 = Inr (0, 1, n)"
  using le16_pack [OF assms]
  by (simp add: unpack_from_HHH_def ico_header_def le16_def)

lemma parse_built:
  assumes "build_ico ps = Inr out"
  shows "parse_ico_sizes out
         = Inr (map (\<lambda>p. resolved_size (of_nat (if png_side p = 256 then 0 else png_side p))) ps)"
proof -
  let ?n = "length ps"
  let ?off = "6 + 16 * ?n"
  from assms have n: "?n < 65536"
    and out: "out = ico_header ?n @ concat (dir_entries ?off ps) @ concat ps"
    by (simp_all add: build_ico_iff)
  have len: "length out = 6 + 16 * ?n + length (concat ps)"
    unfolding out by (rule length_built)
  have hdr: "unpack_from_HHH out 0 = Inr (0, 1, ?n)"
    unfolding out by (rule header_of_built [OF n])
  have "for_each (parse_entry out) [0..<?n] []
        = Inr ([] @ map (\<lambda>i. resolved_size (out ! (6 + i * 16))) [0..<?n])"
  proof (rule parse_loop_square)
    show "6 + ?n * 16 \<le> length out" using len by simp
    show "out ! (6 + i * 16) = out ! (6 + i * 16 + 1)" if "i < ?n" for i
      unfolding out using built_size_bytes [OF that] by simp
  qed
  moreover have "map (\<lambda>i. resolved_size (out ! (6 + i * 16))) [0..<?n]
        = map (\<lambda>i. resolved_size (of_nat (if png_side (ps ! i) = 256 then 0 else png_side (ps ! i)))) [0..<?n]"
    unfolding out using built_size_bytes(1) by simp
  moreover have "\<dots> = map (\<lambda>p. resolved_size (of_nat (if png_side p = 256 then 0 else png_side p))) ps"
    by (simp add: map_equality_iff)
  ultimately show ?thesis
    using hdr len by (simp add: parse_ico_sizes_def Let_def)
qed

lemma resolved_size_inject: "resolved_size a = resolved_size b \<longleftrightarrow> a = b"
proof -
  have "unat a < 256" "unat b < 256"
    using unsigned_less [of a] unsigned_less [of b] by simp_all
  then show ?thesis
    by (auto simp: resolved_size_def word_unat_eq_iff)
qed

lemma parse_entry_eq:
  assumes "6 + idx * 16 + 2 \<le> length data"
  shows "parse_entry data idx sizes =
         (if data ! (6 + idx * 16) = data ! (6 + idx * 16 + 1)
          then Inr (sizes @ [resolved_size (data ! (6 + idx * 16))])
          else Inl (Fail (IcoNotSquare idx (resolved_size (data ! (6 + idx * 16)))
                                          (resolved_size (data ! (6 + idx * 16 + 1))))))"
proof -
  have "parse_entry data idx sizes =
        (if resolved_size (data ! (6 + idx * 16)) \<noteq> resolved_size (data ! (6 + idx * 16 + 1))
         then Inl (Fail (IcoNotSquare idx (resolved_size (data ! (6 + idx * 16)))
                                          (resolved_size (data ! (6 + idx * 16 + 1)))))
         else Inr (sizes @ [resolved_size (data ! (6 + idx * 16))]))"
    using assms by (simp add: parse_entry_def unpack_from_BB_def resolved_size_def Let_def)
  then show ?thesis
    by (simp add: resolved_size_inject)
qed

lemma parse_loop_Inr:
  assumes "6 + n * 16 \<le> length data"
    and "for_each (parse_entry data) [0..<n] acc = Inr sizes"
  shows "sizes = acc @ map (\<lambda>i. resolved_size (data ! (6 + i * 16))) [0..<n]
         \<and> (\<forall>i<n. data ! (6 + i * 16) = data ! (6 + i * 16 + 1))"
  using assms
proof (induction n arbitrary: sizes)
  case 0
  then show ?case by simp
next
  case (Suc n)
  from Suc.prems(2) obtain mid where mid: "for_each (parse_entry data) [0..<n] acc = Inr mid"
    and last: "parse_entry data n mid = Inr sizes"
    by (auto simp: for_each_append split: sum.splits)
  have ih: "mid = acc @ map (\<lambda>i. resolved_size (data ! (6 + i * 16))) [0..<n]"
    "\<forall>i<n. data ! (6 + i * 16) = data ! (6 + i * 16 + 1)"
    using Suc.IH [OF _ mid] Suc.prems(1) by simp_all
  have "6 + n * 16 + 2 \<le> length data" using Suc.prems(1) by simp
  from parse_entry_eq [OF this, of mid] last
  have "data ! (6 + n * 16) = data ! (6 + n * 16 + 1)"
    and "sizes = mid @ [resolved_size (data ! (6 + n * 16))]"
    by (auto split: if_splits)
  with ih show ?case by (auto simp: less_Suc_eq)
qed

lemma parse_ico_sizes_Inr:
  assumes "parse_ico_sizes data = Inr sizes"
  shows "6 + 16 * le16 (data ! 4) (data ! 5) \<le> length data"
    and "sizes = map (\<lambda>i. resolved_size (data ! (6 + i * 16))) [0..<le16 (data ! 4) (data ! 5)]"
    and "\<forall>i<le16 (data ! 4) (data ! 5). data ! (6 + i * 16) = data ! (6 + i * 16 + 1)"
proof -
  let ?c = "le16 (data ! 4) (data ! 5)"
  from assms have len: "6 + ?c * 16 \<le> length data"
    and loop: "for_each (parse_entry data) [0..<?c] [] = Inr sizes"
    by (auto simp: parse_ico_sizes_def unpack_from_HHH_def Let_def split: if_splits)
  from len show "6 + 16 * ?c \<le> length data" by simp
  from parse_loop_Inr [OF len loop]
  show "sizes = map (\<lambda>i. resolved_size (data ! (6 + i * 16))) [0..<?c]"
    and "\<forall>i<?c. data ! (6 + i * 16) = data ! (6 + i * 16 + 1)"
    by simp_all
qed

subsection \<open>When the builder returns\<close>

lemma sum_list_take_nth_le:
  "i < length ps \<Longrightarrow>
   sum_list (map length (take i ps)) + length (ps ! i) \<le> sum_list (map length ps)"
proof -
  assume i: "i < length ps"
  have "sum_list (map length ps)
        = sum_list (map length (take i ps @ ps ! i # drop (Suc i) ps))"
    using id_take_nth_drop [OF i] by simp
  then show ?thesis by simp
qed

lemma build_ico_succeeds:
  assumes "\<forall>p\<in>set ps. \<exists>n. png_dimensions p = Inr (n, n) \<and> n \<le> 256"
    and "length ps < 65536"
    and "6 + 16 * length ps + sum_list (map length ps) < 4294967296"
  shows "\<exists>out. build_ico ps = Inr out"
proof -
  have "accepted_png (6 + 16 * length ps + sum_list (map length (take i ps))) (ps ! i)"
    if i: "i < length ps" for i
  proof -
    from assms(1) i obtain n where "png_dimensions (ps ! i) = Inr (n, n)" "n \<le> 256"
      by (meson nth_mem)
    moreover have "sum_list (map length (take i ps)) + length (ps ! i) \<le> sum_list (map length ps)"
      by (rule sum_list_take_nth_le [OF i])
    ultimately show ?thesis
      using assms(3) by (simp add: accepted_png_def png_side_def)
  qed
  then have "all_accepted (6 + 16 * length ps) ps"
    by (simp add: all_accepted_iff_nth)
  then show ?thesis
    using assms(2) by (simp add: build_ico_iff)
qed

lemma build_ico_square:
  assumes "build_ico ps = Inr out" "p \<in> set ps"
  shows "png_dimensions p = Inr (png_side p, png_side p)" "png_side p \<le> 256"
proof -
  from assms(2) obtain i where i: "i < length ps" "ps ! i = p"
    by (auto simp: in_set_conv_nth)
  from assms(1) have "all_accepted (6 + 16 * length ps) ps"
    by (simp add: build_ico_iff)
  from all_accepted_nth [OF this i(1)] i(2)
  show "png_dimensions p = Inr (png_side p, png_side p)" "png_side p \<le> 256"
    by (simp_all add: accepted_png_def)
qed

subsection \<open>Example files and equal prefixes\<close>

lemma png_stub_small:
  "w < 65536 \<Longrightarrow> h < 65536 \<Longrightarrow> png_dimensions (png_stub w h) = Inr (w, h)"
  "length (png_stub w h) = 24"
  by (simp_all add: png_dimensions_def png_stub_def PNG_SIGNATURE_def IHDR_def py_slice_def
      unpack_II_be_def be32_def unat_of_nat take_bit_eq_mod)

lemma take_eq_nth: "take n xs = take n ys \<Longrightarrow> k < n \<Longrightarrow> k < length xs \<Longrightarrow> xs ! k = ys ! k"
  by (metis nth_take)

lemma take_eq_length:
  "take n xs = take n ys \<Longrightarrow> min (length xs) n = min (length ys) n"
  by (metis length_take)

subsection \<open>Building a container and reading it back\<close>

text \<open>
  Claim C3. For every list of PNG files that are each square with a side between 1 and 256:
  whenever \<^verbatim>\<open>build_ico\<close> writes a container for them, \<^verbatim>\<open>parse_ico_sizes\<close> on that container
  returns the sides of the files, in the order of the files (so the same sizes as a
  multiset); and \<^verbatim>\<open>build_ico\<close> does write a container when the list has fewer than 65536
  files and the container stays below \<open>2^32\<close> bytes, the ranges of the count and offset
  fields of \<^verbatim>\<open>struct.pack\<close>.
\<close>

theorem ico_round_trip:
  assumes "\<forall>p\<in>set pngs. \<exists>n. png_dimensions p = Inr (n, n) \<and> 1 \<le> n \<and> n \<le> 256"
  shows "(\<forall>ico. build_ico pngs = Inr ico \<longrightarrow>
            (\<exists>sizes. parse_ico_sizes ico = Inr sizes
               \<and> map (\<lambda>n. Inr (n, n)) sizes = map png_dimensions pngs
               \<and> mset sizes = mset (map png_side pngs)))
       \<and> (length pngs < 65536 \<and> 6 + 16 * length pngs + sum_list (map length pngs) < 4294967296
            \<longrightarrow> (\<exists>ico. build_ico pngs = Inr ico))"
proof (intro conjI allI impI)
  fix ico
  assume built: "build_ico pngs = Inr ico"
  have side: "png_dimensions p = Inr (png_side p, png_side p) \<and> 1 \<le> png_side p \<and> png_side p \<le> 256"
    if "p \<in> set pngs" for p
    using assms that by (fastforce simp: png_side_def)
  have "resolved_size (of_nat (if png_side p = 256 then 0 else png_side p)) = png_side p"
    if "p \<in> set pngs" for p
    using side [OF that] by (simp add: resolved_size_of_side)
  then have "parse_ico_sizes ico = Inr (map png_side pngs)"
    using parse_built [OF built] by (simp cong: map_cong)
  moreover have "map (\<lambda>n. Inr (n, n)) (map png_side pngs) = map png_dimensions pngs"
    using side by simp
  ultimately show "\<exists>sizes. parse_ico_sizes ico = Inr sizes
               \<and> map (\<lambda>n. Inr (n, n)) sizes = map png_dimensions pngs
               \<and> mset sizes = mset (map png_side pngs)"
    by blast
next
  assume "length pngs < 65536 \<and> 6 + 16 * length pngs + sum_list (map length pngs) < 4294967296"
  then show "\<exists>ico. build_ico pngs = Inr ico"
    using assms by (intro build_ico_succeeds) auto
qed

theorem ico_round_trip_witness:
  "png_dimensions (png_stub 16 16) = Inr (16, 16) \<and>
   png_dimensions (png_stub 256 256) = Inr (256, 256) \<and>
   (\<exists>ico. build_ico [png_stub 16 16, png_stub 256 256] = Inr ico \<and>
      parse_ico_sizes ico = Inr [16, 256])"
proof -
  have d: "png_dimensions (png_stub 16 16) = Inr (16, 16)"
    "png_dimensions (png_stub 256 256) = Inr (256, 256)"
    by (simp_all add: png_stub_small)
  then have sq: "\<forall>p\<in>set [png_stub 16 16, png_stub 256 256].
            \<exists>n. png_dimensions p = Inr (n, n) \<and> 1 \<le> n \<and> n \<le> 256"
    by simp
  note rt = ico_round_trip [OF sq]
  from rt obtain ico where ico: "build_ico [png_stub 16 16, png_stub 256 256] = Inr ico"
    by (auto simp: png_stub_small)
  with rt obtain sizes where "parse_ico_sizes ico = Inr sizes"
    "map (\<lambda>n. Inr (n, n)) sizes = map png_dimensions [png_stub 16 16, png_stub 256 256]"
    by blast
  then have "parse_ico_sizes ico = Inr [16, 256]"
    by (auto simp: d map_eq_Cons_conv)
  with d ico show ?thesis by blast
qed

subsection \<open>The bytes of a built container\<close>

lemma dir_entry_fields:
  assumes "len < 4294967296" "off < 4294967296"
  shows "\<exists>wb hb l0 l1 l2 l3 o0 o1 o2 o3.
           dir_entry side len off = [wb, hb, 0, 0, 1, 0, 32, 0, l0, l1, l2, l3, o0, o1, o2, o3]
         \<and> le32 l0 l1 l2 l3 = len \<and> le32 o0 o1 o2 o3 = off"
  using le32_pack [OF assms(1)] le32_pack [OF assms(2)] by (simp add: dir_entry_def)

text \<open>
  Claim C5. For every list of \<open>N\<close> files that \<^verbatim>\<open>build_ico\<close> accepts, the bytes it writes
  are: a header of six bytes, reserved 0, type 1 and the count \<open>N\<close>, each 16 bits
  little-endian; then \<open>N\<close> directory entries of sixteen bytes, each made of a width byte, a
  height byte, colour count 0, reserved 0, planes 1 and bit depth 32 (16 bits each), and the
  length and the offset of the file's payload as 32 bits little-endian; then the files in
  the order of the list. The first offset is \<open>6 + 16 \<times> N\<close> and each later offset is the
  offset before it plus the length of the payload before it.
\<close>

theorem build_ico_layout:
  assumes "build_ico pngs = Inr out"
  shows "\<exists>c0 c1 es offs.
           out = [0, 0, 1, 0, c0, c1] @ concat es @ concat pngs
         \<and> le16 c0 c1 = length pngs
         \<and> length es = length pngs \<and> length offs = length pngs
         \<and> (\<forall>i<length pngs. \<exists>wb hb l0 l1 l2 l3 o0 o1 o2 o3.
               es ! i = [wb, hb, 0, 0, 1, 0, 32, 0, l0, l1, l2, l3, o0, o1, o2, o3]
             \<and> le32 l0 l1 l2 l3 = length (pngs ! i)
             \<and> le32 o0 o1 o2 o3 = offs ! i)
         \<and> (pngs \<noteq> [] \<longrightarrow> offs ! 0 = 6 + 16 * length pngs)
         \<and> (\<forall>i. Suc i < length pngs \<longrightarrow> offs ! Suc i = offs ! i + length (pngs ! i))"
proof -
  let ?n = "length pngs"
  let ?off = "6 + 16 * ?n"
  let ?offs = "map (\<lambda>i. ?off + sum_list (map length (take i pngs))) [0..<?n]"
  from assms have acc: "all_accepted ?off pngs" and n: "?n < 65536"
    and out: "out = ico_header ?n @ concat (dir_entries ?off pngs) @ concat pngs"
    by (simp_all add: build_ico_iff)
  have entry: "\<exists>wb hb l0 l1 l2 l3 o0 o1 o2 o3.
               dir_entries ?off pngs ! i = [wb, hb, 0, 0, 1, 0, 32, 0, l0, l1, l2, l3, o0, o1, o2, o3]
             \<and> le32 l0 l1 l2 l3 = length (pngs ! i)
             \<and> le32 o0 o1 o2 o3 = ?offs ! i" if i: "i < ?n" for i
  proof -
    from all_accepted_nth [OF acc i]
    have "length (pngs ! i) < 4294967296"
      "?off + sum_list (map length (take i pngs)) < 4294967296"
      by (simp_all add: accepted_png_def)
    from dir_entry_fields [OF this] show ?thesis
      using i by (simp only: dir_entries_nth nth_map_upt add_0 length_upt diff_zero nth_upt)
  qed
  have step: "?offs ! Suc i = ?offs ! i + length (pngs ! i)" if "Suc i < ?n" for i
    using that by (simp add: take_Suc_conv_app_nth)
  have "out = [0, 0, 1, 0, of_nat ?n, of_nat (?n div 256)] @ concat (dir_entries ?off pngs) @ concat pngs"
    using out by (simp add: ico_header_def)
  moreover have "le16 (of_nat ?n) (of_nat (?n div 256)) = ?n"
    by (rule le16_pack [OF n])
  moreover have "length (dir_entries ?off pngs) = ?n" "length ?offs = ?n"
    by simp_all
  moreover have "pngs \<noteq> [] \<longrightarrow> ?offs ! 0 = ?off"
    by (simp add: nth_map_upt)
  ultimately show ?thesis
    using entry step by blast
qed


theorem build_ico_layout_witness:
  "\<exists>out c0 c1 es (offs :: nat list). build_ico [png_stub 16 16, png_stub 32 32] = Inr out
     \<and> out = [0, 0, 1, 0, c0, c1] @ concat es @ concat [png_stub 16 16, png_stub 32 32]
     \<and> le16 c0 c1 = 2 \<and> length es = 2 \<and> offs ! 0 = 38 \<and> offs ! 1 = 62"
proof -
  let ?pngs = "[png_stub 16 16, png_stub 32 32]"
  have "\<exists>out. build_ico ?pngs = Inr out"
    by (rule build_ico_succeeds) (auto simp: png_stub_small)
  then obtain out where out: "build_ico ?pngs = Inr out" ..
  from build_ico_layout [OF out] obtain c0 c1 es and offs :: "nat list" where
    l: "out = [0, 0, 1, 0, c0, c1] @ concat es @ concat ?pngs"
      "le16 c0 c1 = length ?pngs" "length es = length ?pngs"
      "?pngs \<noteq> [] \<longrightarrow> offs ! 0 = 6 + 16 * length ?pngs"
      "\<forall>i. Suc i < length ?pngs \<longrightarrow> offs ! Suc i = offs ! i + length (?pngs ! i)"
    by blast
  from l(4) have o0: "offs ! 0 = 38" by simp
  from l(5) have "offs ! Suc 0 = offs ! 0 + length (?pngs ! 0)" by simp
  with o0 have o1: "offs ! 1 = 62" by (simp add: png_stub_small)
  from l(2,3) have "le16 c0 c1 = 2" "length es = 2" by simp_all
  with out l(1) o0 o1 show ?thesis by blast
qed

subsection \<open>The size bytes and the value 256\<close>

lemma resolved_size_eq: "resolved_size b = (if b = 0 then 256 else unat b)"
  by (simp add: resolved_size_def unat_eq_0)

text \<open>
  Claim C4. In the container \<^verbatim>\<open>build_ico\<close> writes, the width and the height byte of an
  entry are the dimensions of its file, with 256 written as 0; \<^verbatim>\<open>parse_ico_sizes\<close> reads a
  directory byte 0 as 256 and every other byte as itself; and a file of 256 by 256 pixels
  gets the bytes 0 and 0 and is read back as 256.
\<close>

theorem ico_size_bytes:
  "(build_ico pngs = Inr ico \<and> i < length pngs \<and> png_dimensions (pngs ! i) = Inr (w, h) \<longrightarrow>
      unat (ico ! (6 + 16 * i)) = (if w = 256 then 0 else w)
    \<and> unat (ico ! (6 + 16 * i + 1)) = (if h = 256 then 0 else h))
   \<and> (parse_ico_sizes data = Inr sizes \<and> k < length sizes \<longrightarrow>
      sizes ! k = (if data ! (6 + 16 * k) = 0 then 256 else unat (data ! (6 + 16 * k)))
    \<and> sizes ! k = (if data ! (6 + 16 * k + 1) = 0 then 256 else unat (data ! (6 + 16 * k + 1))))
   \<and> (png_dimensions png = Inr (256, 256) \<and> build_ico [png] = Inr ico' \<longrightarrow>
      ico' ! 6 = 0 \<and> ico' ! 7 = 0 \<and> parse_ico_sizes ico' = Inr [256])"
proof (intro conjI impI)
  assume a: "build_ico pngs = Inr ico \<and> i < length pngs \<and> png_dimensions (pngs ! i) = Inr (w, h)"
  then have built: "build_ico pngs = Inr ico" and i: "i < length pngs"
    and dim: "png_dimensions (pngs ! i) = Inr (w, h)" by simp_all
  from build_ico_square [OF built nth_mem [OF i]] dim
  have wh: "w = png_side (pngs ! i)" "h = png_side (pngs ! i)" "png_side (pngs ! i) \<le> 256"
    by simp_all
  from built have out: "ico = ico_header (length pngs)
      @ concat (dir_entries (6 + 16 * length pngs) pngs) @ concat pngs"
    by (simp add: build_ico_iff)
  have idx: "6 + 16 * i = 6 + i * 16" by simp
  have "unat (of_nat (if n = 256 then 0 else n) :: byte) = (if n = 256 then 0 else n)"
    if "n \<le> 256" for n :: nat
    using that by (simp add: unat_of_nat take_bit_eq_mod)
  from this [OF wh(3)]
  show "unat (ico ! (6 + 16 * i)) = (if w = 256 then 0 else w)"
    and "unat (ico ! (6 + 16 * i + 1)) = (if h = 256 then 0 else h)"
    unfolding out idx wh(1,2) built_size_bytes [OF i] by simp_all
next
  assume "parse_ico_sizes data = Inr sizes \<and> k < length sizes"
  then have p: "parse_ico_sizes data = Inr sizes" and k: "k < length sizes" by simp_all
  note r = parse_ico_sizes_Inr [OF p]
  from k r(2) have kc: "k < le16 (data ! 4) (data ! 5)" by simp
  have idx: "6 + 16 * k = 6 + k * 16" by simp
  from r(2) kc have "sizes ! k = resolved_size (data ! (6 + k * 16))" by simp
  moreover from r(3) kc have "data ! (6 + k * 16) = data ! (6 + k * 16 + 1)" by simp
  ultimately
  show "sizes ! k = (if data ! (6 + 16 * k) = 0 then 256 else unat (data ! (6 + 16 * k)))"
    and "sizes ! k = (if data ! (6 + 16 * k + 1) = 0 then 256 else unat (data ! (6 + 16 * k + 1)))"
    unfolding idx by (simp_all add: resolved_size_eq)
next
  assume "png_dimensions png = Inr (256, 256) \<and> build_ico [png] = Inr ico'"
  then have dim: "png_dimensions png = Inr (256, 256)" and built: "build_ico [png] = Inr ico'"
    by simp_all
  from dim have side: "png_side png = 256" by (simp add: png_side_def)
  from built have out: "ico' = ico_header (length [png])
      @ concat (dir_entries (6 + 16 * length [png]) [png]) @ concat [png]"
    by (simp only: build_ico_iff)
  have "ico' ! (6 + 0 * 16) = 0" "ico' ! (6 + 0 * 16 + 1) = 0"
    unfolding out using built_size_bytes [of 0 "[png]"] side by simp_all
  then show "ico' ! 6 = 0" "ico' ! 7 = 0" by simp_all
  show "parse_ico_sizes ico' = Inr [256]"
    using parse_built [OF built] side by (simp add: resolved_size_def)
qed

theorem ico_size_bytes_witness:
  "\<exists>ico. build_ico [png_stub 48 48, png_stub 256 256] = Inr ico
     \<and> unat (ico ! 6) = 48 \<and> unat (ico ! 7) = 48 \<and> unat (ico ! 22) = 0 \<and> unat (ico ! 23) = 0
     \<and> parse_ico_sizes ico = Inr [48, 256]"
proof -
  have "\<exists>ico. build_ico [png_stub 48 48, png_stub 256 256] = Inr ico"
    by (rule build_ico_succeeds) (auto simp: png_stub_small)
  then obtain ico where ico: "build_ico [png_stub 48 48, png_stub 256 256] = Inr ico" ..
  have p: "parse_ico_sizes ico = Inr [48, 256]"
    using parse_built [OF ico] by (simp add: png_side_def png_stub_small resolved_size_def)
  from ico_size_bytes [of "[png_stub 48 48, png_stub 256 256]" ico 0 48 48 ico "[48, 256]" 0]
    ico_size_bytes [of "[png_stub 48 48, png_stub 256 256]" ico 1 256 256 ico "[48, 256]" 1]
  have "unat (ico ! 6) = 48 \<and> unat (ico ! 7) = 48 \<and> unat (ico ! 22) = 0 \<and> unat (ico ! 23) = 0"
    using ico p by (simp add: png_stub_small)
  with ico p show ?thesis by blast
qed

subsection \<open>What the directory reader depends on\<close>

text \<open>
  Claim C10. The result of \<^verbatim>\<open>parse_ico_sizes\<close> depends only on the header and the
  directory: two inputs that agree on the first \<open>6 + 16 \<times> count\<close> bytes, \<open>count\<close> being
  the entry count of the first input's header (on the first six bytes, for an input with
  no full header), give the same list of sizes or the same failure.
\<close>

theorem parse_ico_sizes_reads_directory_only:
  assumes "take (directory_end d1) d1 = take (directory_end d1) d2"
  shows "parse_ico_sizes d1 = parse_ico_sizes d2"
proof (cases "length d1 < 6")
  case True
  then have "take 6 d1 = d1" by simp
  with assms True have "length (take 6 d2) < 6"
    by (simp add: directory_end_def)
  then have "length d2 < 6" by simp
  with True show ?thesis by (simp add: parse_ico_sizes_def)
next
  case False
  define c where "c = le16 (d1 ! 4) (d1 ! 5)"
  define n where "n = 6 + c * 16"
  from False assms have eq: "take n d1 = take n d2"
    by (simp add: directory_end_def n_def c_def mult.commute)
  have nth: "d1 ! k = d2 ! k" if "k < n" "k < length d1" for k
    using take_eq_nth [OF eq that] .
  have lens: "min (length d1) n = min (length d2) n"
    using take_eq_length [OF eq] .
  have n6: "6 \<le> n" by (simp add: n_def)
  with lens False have len2: "\<not> length d2 < 6" by linarith
  have hdr6: "d1 ! k = d2 ! k" if "k < 6" for k
  proof (rule nth)
    show "k < n" using that n6 by linarith
    show "k < length d1" using that False by linarith
  qed
  have h1: "unpack_from_HHH d1 0 = Inr (le16 (d1 ! 0) (d1 ! 1), le16 (d1 ! 2) (d1 ! 3), c)"
    using False by (simp add: unpack_from_HHH_def c_def numeral_2_eq_2)
  have h2: "unpack_from_HHH d2 0 = Inr (le16 (d1 ! 0) (d1 ! 1), le16 (d1 ! 2) (d1 ! 3), c)"
    using len2 hdr6 [of 0] hdr6 [of 1] hdr6 [of 2] hdr6 [of 3] hdr6 [of 4] hdr6 [of 5]
    by (simp add: unpack_from_HHH_def c_def numeral_2_eq_2)
  have trunc: "length d1 < n \<longleftrightarrow> length d2 < n"
    using lens by linarith
  have loop: "for_each (parse_entry d1) [0..<c] [] = for_each (parse_entry d2) [0..<c] []"
    if full: "\<not> length d1 < n"
  proof (rule for_each_cong_on)
    fix i s
    assume "i \<in> set [0..<c]"
    then have i: "i < c" by simp
    then have a: "6 + i * 16 < n" "6 + i * 16 + 1 < n" by (simp_all add: n_def)
    from a full have b: "6 + i * 16 < length d1" "6 + i * 16 + 1 < length d1"
      by linarith+
    have "d1 ! (6 + i * 16) = d2 ! (6 + i * 16)"
      "d1 ! (6 + i * 16 + 1) = d2 ! (6 + i * 16 + 1)"
      using nth [OF a(1) b(1)] nth [OF a(2) b(2)] by blast+
    moreover have "6 + i * 16 + 2 \<le> n" using i by (simp add: n_def)
    then have "6 + i * 16 + 2 \<le> length d1" "6 + i * 16 + 2 \<le> length d2"
      using full trunc by linarith+
    ultimately show "parse_entry d1 i s = parse_entry d2 i s"
      by (simp add: parse_entry_eq)
  qed
  have p1: "parse_ico_sizes d1 =
        (if le16 (d1 ! 0) (d1 ! 1) \<noteq> 0 \<or> le16 (d1 ! 2) (d1 ! 3) \<noteq> 1 then Inl (Fail InvalidIcoHeader)
         else if length d1 < n then Inl (Fail IcoDirectoryTruncated)
         else for_each (parse_entry d1) [0..<c] [])"
    using False by (simp add: parse_ico_sizes_def h1 Let_def n_def)
  have p2: "parse_ico_sizes d2 =
        (if le16 (d1 ! 0) (d1 ! 1) \<noteq> 0 \<or> le16 (d1 ! 2) (d1 ! 3) \<noteq> 1 then Inl (Fail InvalidIcoHeader)
         else if length d2 < n then Inl (Fail IcoDirectoryTruncated)
         else for_each (parse_entry d2) [0..<c] [])"
    using len2 by (simp add: parse_ico_sizes_def h2 Let_def n_def)
  show ?thesis
    unfolding p1 p2 using trunc loop by auto
qed

theorem parse_ico_sizes_reads_directory_only_witness:
  "take (directory_end [0, 0, 1, 0, 1, 0, 16, 16, 0, 0, 1, 0, 32, 0, 0, 0, 0, 0, 22, 0, 0, 0, 7])
        [0, 0, 1, 0, 1, 0, 16, 16, 0, 0, 1, 0, 32, 0, 0, 0, 0, 0, 22, 0, 0, 0, 7]
   = take (directory_end [0, 0, 1, 0, 1, 0, 16, 16, 0, 0, 1, 0, 32, 0, 0, 0, 0, 0, 22, 0, 0, 0, 7])
        [0, 0, 1, 0, 1, 0, 16, 16, 0, 0, 1, 0, 32, 0, 0, 0, 0, 0, 22, 0, 0, 0, 9, 9]
   \<and> parse_ico_sizes [0, 0, 1, 0, 1, 0, 16, 16, 0, 0, 1, 0, 32, 0, 0, 0, 0, 0, 22, 0, 0, 0, 7]
     = parse_ico_sizes [0, 0, 1, 0, 1, 0, 16, 16, 0, 0, 1, 0, 32, 0, 0, 0, 0, 0, 22, 0, 0, 0, 9, 9]
   \<and> parse_ico_sizes [0, 0, 1, 0, 1, 0, 16, 16, 0, 0, 1, 0, 32, 0, 0, 0, 0, 0, 22, 0, 0, 0, 7]
     = Inr [16]"
proof -
  have d: "directory_end [0, 0, 1, 0, 1, 0, 16, 16, 0, 0, 1, 0, 32, 0, 0, 0, 0, 0, 22, 0, 0, 0, 7 :: byte]
           = 22"
    by (simp add: directory_end_def le16_def)
  have p: "parse_ico_sizes [0, 0, 1, 0, 1, 0, 16, 16, 0, 0, 1, 0, 32, 0, 0, 0, 0, 0, 22, 0, 0, 0, 7]
           = Inr [16]"
    by (simp add: parse_ico_sizes_def unpack_from_HHH_def le16_def parse_entry_def
        unpack_from_BB_def Let_def)
  show ?thesis
    using parse_ico_sizes_reads_directory_only
      [of "[0, 0, 1, 0, 1, 0, 16, 16, 0, 0, 1, 0, 32, 0, 0, 0, 0, 0, 22, 0, 0, 0, 7]"
          "[0, 0, 1, 0, 1, 0, 16, 16, 0, 0, 1, 0, 32, 0, 0, 0, 0, 0, 22, 0, 0, 0, 9, 9]"]
    by (simp add: d p)
qed

subsection \<open>The size check of the validator\<close>

lemma parse_plain_ico:
  assumes "length bs < 65536"
  shows "parse_ico_sizes (plain_ico bs) = Inr (map resolved_size bs)"
proof -
  let ?es = "map (\<lambda>b. [b, b, 0, 0, 1, 0, 32, 0, 0, 0, 0, 0, 0, 0, 0, 0]) bs"
  let ?n = "length bs"
  have blocks: "\<And>e. e \<in> set ?es \<Longrightarrow> length e = 16" by auto
  have "length (concat ?es) = 16 * length ?es"
    by (rule length_concat_blocks) (rule blocks)
  then have len: "length (plain_ico bs) = 6 + 16 * ?n"
    by (simp add: plain_ico_def ico_header_def)
  have hdr: "unpack_from_HHH (plain_ico bs) 0 = Inr (0, 1, ?n)"
    unfolding plain_ico_def by (rule header_of_built [OF assms])
  have byte: "plain_ico bs ! (6 + (16 * i + j)) = ?es ! i ! j" if "i < ?n" "j < 16" for i j
  proof -
    have "plain_ico bs ! (6 + (16 * i + j)) = concat ?es ! (16 * i + j)"
      by (simp add: plain_ico_def ico_header_def nth_append)
    also have "\<dots> = ?es ! i ! j"
      by (rule nth_concat_blocks) (use that blocks in simp_all)
    finally show ?thesis .
  qed
  have b0: "plain_ico bs ! (6 + i * 16) = bs ! i" if "i < ?n" for i
    using byte [OF that, of 0] that by (simp add: mult.commute)
  have b1: "plain_ico bs ! (6 + i * 16 + 1) = bs ! i" if "i < ?n" for i
    using byte [OF that, of 1] that by (simp add: mult.commute add.assoc)
  have "for_each (parse_entry (plain_ico bs)) [0..<?n] []
        = Inr ([] @ map (\<lambda>i. resolved_size (plain_ico bs ! (6 + i * 16))) [0..<?n])"
  proof (rule parse_loop_square)
    show "6 + ?n * 16 \<le> length (plain_ico bs)" using len by simp
    show "plain_ico bs ! (6 + i * 16) = plain_ico bs ! (6 + i * 16 + 1)" if "i < ?n" for i
      using b0 [OF that] b1 [OF that] by simp
  qed
  moreover have "map (\<lambda>i. resolved_size (plain_ico bs ! (6 + i * 16))) [0..<?n]
        = map (\<lambda>i. resolved_size (bs ! i)) [0..<?n]"
    using b0 by simp
  moreover have "\<dots> = map resolved_size bs"
    by (simp add: map_equality_iff)
  ultimately show ?thesis
    using hdr len by (simp add: parse_ico_sizes_def Let_def)
qed

lemma sorted_EXPECTED_ICO_SIZES: "sorted EXPECTED_ICO_SIZES"
  by (simp add: EXPECTED_ICO_SIZES_def)

lemma sort_eq_expected_iff:
  "sort sizes = EXPECTED_ICO_SIZES \<longleftrightarrow> mset sizes = mset EXPECTED_ICO_SIZES"
proof
  assume "sort sizes = EXPECTED_ICO_SIZES"
  then have "mset (sort sizes) = mset EXPECTED_ICO_SIZES" by simp
  then show "mset sizes = mset EXPECTED_ICO_SIZES" by simp
next
  assume "mset sizes = mset EXPECTED_ICO_SIZES"
  then show "sort sizes = EXPECTED_ICO_SIZES"
    using sorted_EXPECTED_ICO_SIZES by (metis properties_for_sort)
qed

text \<open>
  Claim C6, as the code has it. The validator accepts the ICO file if and only if
  \<^verbatim>\<open>parse_ico_sizes\<close> returns a list of sizes that is a rearrangement of the list
  \<open>[16, 24, 32, 40, 48, 64, 128, 256]\<close>, each size once (equality of multisets, whatever
  the order of the directory); a list of sizes with any other multiset fails with the
  size-set mismatch, and a failure of the reader is passed on.
\<close>

theorem main_ico_sizes_multiset:
  "((\<exists>r. main_ico_sizes ico = Inr r) \<longleftrightarrow>
      (\<exists>sizes. parse_ico_sizes ico = Inr sizes \<and> mset sizes = mset EXPECTED_ICO_SIZES))
   \<and> (\<forall>sizes. parse_ico_sizes ico = Inr sizes \<and> mset sizes \<noteq> mset EXPECTED_ICO_SIZES \<longrightarrow>
        main_ico_sizes ico = Inl (Fail (IcoSizeSetMismatch (sort sizes))))
   \<and> (\<forall>e. parse_ico_sizes ico = Inl e \<longrightarrow> main_ico_sizes ico = Inl e)"
  by (cases "parse_ico_sizes ico")
     (auto simp: main_ico_sizes_def Let_def sort_eq_expected_iff)

theorem main_ico_sizes_multiset_witness:
  "parse_ico_sizes (plain_ico [0, 128, 64, 48, 40, 32, 24, 16])
     = Inr [256, 128, 64, 48, 40, 32, 24, 16]
   \<and> (\<exists>r. main_ico_sizes (plain_ico [0, 128, 64, 48, 40, 32, 24, 16]) = Inr r)
   \<and> parse_ico_sizes (plain_ico [16, 24]) = Inr [16, 24]
   \<and> main_ico_sizes (plain_ico [16, 24]) = Inl (Fail (IcoSizeSetMismatch [16, 24]))"
proof -
  have p1: "parse_ico_sizes (plain_ico [0, 128, 64, 48, 40, 32, 24, 16])
            = Inr [256, 128, 64, 48, 40, 32, 24, 16]"
    by (simp add: parse_plain_ico resolved_size_def)
  have p2: "parse_ico_sizes (plain_ico [16, 24]) = Inr [16, 24]"
    by (simp add: parse_plain_ico resolved_size_def)
  have m1: "mset [256, 128, 64, 48, 40, 32, 24, 16 :: nat] = mset EXPECTED_ICO_SIZES"
    by (simp add: EXPECTED_ICO_SIZES_def)
  have m2: "mset [16, 24 :: nat] \<noteq> mset EXPECTED_ICO_SIZES"
    by (simp add: EXPECTED_ICO_SIZES_def)
  have s2: "sort [16, 24 :: nat] = [16, 24]" by simp
  from main_ico_sizes_multiset [of "plain_ico [0, 128, 64, 48, 40, 32, 24, 16]"] p1 m1
  have "\<exists>r. main_ico_sizes (plain_ico [0, 128, 64, 48, 40, 32, 24, 16]) = Inr r"
    by blast
  moreover from main_ico_sizes_multiset [of "plain_ico [16, 24]"] p2 m2 s2
  have "main_ico_sizes (plain_ico [16, 24]) = Inl (Fail (IcoSizeSetMismatch [16, 24]))"
    by metis
  ultimately show ?thesis using p1 p2 by blast
qed

text \<open>
  The claim as stated asks for equality of sets. A directory that lists the size 16 twice
  and every other expected size once has the expected set of sizes, and is rejected.
\<close>

theorem main_ico_sizes_set_counterexample:
  "parse_ico_sizes (plain_ico [16, 16, 24, 32, 40, 48, 64, 128, 0])
     = Inr [16, 16, 24, 32, 40, 48, 64, 128, 256]
   \<and> set [16, 16, 24, 32, 40, 48, 64, 128, 256] = set EXPECTED_ICO_SIZES
   \<and> main_ico_sizes (plain_ico [16, 16, 24, 32, 40, 48, 64, 128, 0])
     = Inl (Fail (IcoSizeSetMismatch [16, 16, 24, 32, 40, 48, 64, 128, 256]))"
proof -
  have p: "parse_ico_sizes (plain_ico [16, 16, 24, 32, 40, 48, 64, 128, 0])
           = Inr [16, 16, 24, 32, 40, 48, 64, 128, 256]"
    by (simp add: parse_plain_ico resolved_size_def)
  have s: "set [16, 16, 24, 32, 40, 48, 64, 128, 256 :: nat] = set EXPECTED_ICO_SIZES"
    by (simp add: EXPECTED_ICO_SIZES_def)
  have "sort [16, 16, 24, 32, 40, 48, 64, 128, 256 :: nat] = [16, 16, 24, 32, 40, 48, 64, 128, 256]"
    by simp
  then have "main_ico_sizes (plain_ico [16, 16, 24, 32, 40, 48, 64, 128, 0])
     = Inl (Fail (IcoSizeSetMismatch [16, 16, 24, 32, 40, 48, 64, 128, 256]))"
    by (simp add: main_ico_sizes_def p Let_def EXPECTED_ICO_SIZES_def)
  with p s show ?thesis by blast
qed

subsection \<open>The header reader\<close>

text \<open>
  Claim C9, as the code has it. \<^verbatim>\<open>png_dimensions\<close> fails when the input is shorter than 24
  bytes or does not start with the signature; otherwise it returns the bytes 16 to 19 and
  20 to 23 as two big-endian 32-bit integers. The bytes 8 to 15, the length and the type of
  the first chunk, are not looked at: two inputs that differ only there give the same
  result.
\<close>

theorem png_dimensions_fixed_offsets:
  "png_dimensions data =
     (if length data < 24 \<or> take 8 data \<noteq> PNG_SIGNATURE then Inl (ValueError NotValidPng)
      else Inr (be32 (data ! 16) (data ! 17) (data ! 18) (data ! 19),
                be32 (data ! 20) (data ! 21) (data ! 22) (data ! 23)))
   \<and> (length data = length data' \<and> take 8 data = take 8 data' \<and> drop 16 data = drop 16 data'
        \<longrightarrow> png_dimensions data = png_dimensions data')"
proof -
  have eq: "png_dimensions d =
     (if length d < 24 \<or> take 8 d \<noteq> PNG_SIGNATURE then Inl (ValueError NotValidPng)
      else Inr (be32 (d ! 16) (d ! 17) (d ! 18) (d ! 19),
                be32 (d ! 20) (d ! 21) (d ! 22) (d ! 23)))" for d
  proof (cases "length d < 24")
    case True
    then show ?thesis by (simp add: png_dimensions_def)
  next
    case False
    then have "length (py_slice d 16 24) = 8" by (simp add: py_slice_def)
    moreover have "py_slice d 16 24 ! k = d ! (16 + k)" if "k < 8" for k
      using that False by (simp add: py_slice_def)
    ultimately show ?thesis
      using False by (simp add: png_dimensions_def unpack_II_be_def)
  qed
  have "png_dimensions data = png_dimensions data'"
    if "length data = length data'" "take 8 data = take 8 data'" "drop 16 data = drop 16 data'"
  proof -
    have "data ! (16 + k) = data' ! (16 + k)" if "16 + k < length data" for k
      using that \<open>drop 16 data = drop 16 data'\<close> \<open>length data = length data'\<close>
      by (metis nth_drop less_imp_le_nat le_add1 order_trans)
    from this [of 0] this [of 1] this [of 2] this [of 3] this [of 4] this [of 5] this [of 6] this [of 7]
    show ?thesis
      using that(1,2) by (simp add: eq)
  qed
  with eq show ?thesis by blast
qed


theorem png_dimensions_fixed_offsets_witness:
  "png_dimensions (PNG_SIGNATURE @ [0, 0, 0, 13] @ IHDR @ [0, 0, 0, 16, 0, 0, 1, 0]) = Inr (16, 256)
   \<and> png_dimensions (PNG_SIGNATURE @ [1, 2, 3, 4] @ IEND @ [0, 0, 0, 16, 0, 0, 1, 0]) = Inr (16, 256)
   \<and> png_dimensions [0x89, 0x50] = Inl (ValueError NotValidPng)"
proof -
  let ?d = "PNG_SIGNATURE @ [0, 0, 0, 13] @ IHDR @ [0, 0, 0, 16, 0, 0, 1, 0]"
  let ?d' = "PNG_SIGNATURE @ [1, 2, 3, 4] @ IEND @ [0, 0, 0, 16, 0, 0, 1, 0]"
  note t = png_dimensions_fixed_offsets [of ?d ?d']
  have a: "png_dimensions ?d = Inr (16, 256)"
    using t by (simp add: PNG_SIGNATURE_def IHDR_def be32_def)
  have "length ?d = length ?d' \<and> take 8 ?d = take 8 ?d' \<and> drop 16 ?d = drop 16 ?d'"
    by (simp add: PNG_SIGNATURE_def IHDR_def IEND_def)
  with t have b: "png_dimensions ?d = png_dimensions ?d'"
    by blast
  have c: "png_dimensions [0x89, 0x50] = Inl (ValueError NotValidPng)"
    using png_dimensions_fixed_offsets [of "[0x89, 0x50]" "[]"] by simp
  from a b have "png_dimensions ?d' = Inr (16, 256)" by (simp only:)
  with a c show ?thesis by blast
qed

text \<open>
  The claim as stated has the first chunk checked to be of type IHDR. An input whose first
  chunk is of type IDAT is accepted, with the eight bytes after the type as dimensions.
\<close>

theorem png_dimensions_first_chunk_counterexample:
  "py_slice (PNG_SIGNATURE @ [0, 0, 0, 0] @ IDAT @ [0, 0, 0, 5, 0, 0, 0, 7]) 12 16 = IDAT
   \<and> IDAT \<noteq> IHDR
   \<and> png_dimensions (PNG_SIGNATURE @ [0, 0, 0, 0] @ IDAT @ [0, 0, 0, 5, 0, 0, 0, 7]) = Inr (5, 7)"
  by (simp add: png_dimensions_def py_slice_def unpack_II_be_def be32_def
      PNG_SIGNATURE_def IDAT_def IHDR_def)

subsection \<open>Reconstructing the rows\<close>

text \<open>
  One row: each of the four inner loops writes byte \<open>i\<close> of \<^verbatim>\<open>recon\<close> in round \<open>i\<close>, from the
  bytes it has written before, so that after the loop every byte satisfies its rule.
\<close>

lemma and_255_mod: "(x::int) AND 255 = x mod 256"
proof -
  have m: "(255::int) = mask 8" by (simp add: mask_eq_exp_minus_1)
  have "x AND mask 8 = x mod 2 ^ 8"
    by (simp only: take_bit_eq_mask [symmetric] take_bit_eq_mod)
  then show ?thesis by (simp only: m) simp
qed

lemma setbyte_and_255:
  "i < length xs \<Longrightarrow> setbyte xs i (v AND 255) = Inr (xs[i := word_of_int (v mod 256)])"
proof -
  assume i: "i < length xs"
  have "0 \<le> v mod 256" "v mod 256 < 256" by simp_all
  then have "\<not> (v mod 256 < 0 \<or> 255 < v mod 256)" by linarith
  with i show ?thesis by (simp add: setbyte_def and_255_mod)
qed

lemma uint_byte_of_mod: "uint (word_of_int (v mod 256) :: byte) = v mod 256"
  by (simp add: uint_word_of_int take_bit_eq_mod)

lemma getbyte_in_range: "i < length xs \<Longrightarrow> getbyte xs i = Inr (uint (xs ! i))"
  by (simp add: getbyte_def getitem_def)

lemma left_of_in_range:
  "i < length row \<Longrightarrow> left_of bpp row i = Inr (left_int bpp row i)"
  by (simp add: left_of_def left_int_def getbyte_in_range)

lemma left_int_update:
  "0 < bpp \<Longrightarrow> j \<le> i \<Longrightarrow> left_int bpp (recon[i := v]) j = left_int bpp recon j"
  by (simp add: left_int_def)

lemma filter_loop:
  assumes bpp: "0 < bpp"
    and step: "\<And>i recon. i < n \<Longrightarrow> length recon = n \<Longrightarrow>
      body i recon =
        Inr (recon[i := word_of_int ((uint (raw ! i) + pred (left_int bpp recon i) i) mod 256)])"
    and r0: "length r0 = n"
  shows "\<exists>recon. for_each body [0..<n] r0 = Inr recon \<and> length recon = n \<and>
           (\<forall>i<n. uint (recon ! i) = (uint (raw ! i) + pred (left_int bpp recon i) i) mod 256)"
proof -
  let ?P = "\<lambda>k (recon :: byte list). length recon = n \<and>
      (\<forall>i<k. uint (recon ! i) = (uint (raw ! i) + pred (left_int bpp recon i) i) mod 256)"
  have "\<exists>s'. for_each body [0..<n] r0 = Inr s' \<and> ?P n s'"
  proof (rule for_each_range_invariant [where P = ?P])
    show "?P 0 r0" using r0 by simp
  next
    fix k recon
    assume k: "k < n" and inv: "?P k recon"
    let ?v = "word_of_int ((uint (raw ! k) + pred (left_int bpp recon k) k) mod 256) :: byte"
    let ?r = "recon[k := ?v]"
    have b: "body k recon = Inr ?r" using step k inv by simp
    have "uint (?r ! i) = (uint (raw ! i) + pred (left_int bpp ?r i) i) mod 256"
      if i: "i < Suc k" for i
    proof (cases "i = k")
      case True
      then show ?thesis
        using k inv bpp by (simp add: left_int_update uint_byte_of_mod)
    next
      case False
      with i have "i < k" by simp
      then show ?thesis
        using inv bpp by (simp add: left_int_update)
    qed
    with b inv show "\<exists>s'. body k recon = Inr s' \<and> ?P (Suc k) s'" by simp
  qed
  then show ?thesis by blast
qed

lemma sub_step_eq:
  assumes "i < n" "length recon = n" "length raw = n"
  shows "sub_step bpp raw i recon =
         Inr (recon[i := word_of_int ((uint (raw ! i) + (\<lambda>l i. l) (left_int bpp recon i) i) mod 256)])"
  using assms by (simp add: sub_step_def left_of_in_range getbyte_in_range setbyte_and_255)

lemma up_step_eq:
  assumes "i < n" "length recon = n" "length raw = n" "length prev = n"
  shows "up_step raw prev i recon =
         Inr (recon[i := word_of_int ((uint (raw ! i)
                + (\<lambda>l i. uint (prev ! i)) (left_int bpp recon i) i) mod 256)])"
  using assms by (simp add: up_step_def getbyte_in_range setbyte_and_255)

lemma average_step_eq:
  assumes "i < n" "length recon = n" "length raw = n" "length prev = n"
  shows "average_step bpp raw prev i recon =
         Inr (recon[i := word_of_int ((uint (raw ! i)
                + (\<lambda>l i. (l + uint (prev ! i)) div 2) (left_int bpp recon i) i) mod 256)])"
  using assms
  by (simp add: average_step_def left_of_in_range getbyte_in_range setbyte_and_255)

lemma paeth_step_eq:
  assumes "i < n" "length recon = n" "length raw = n" "length prev = n"
  shows "paeth_step bpp raw prev i recon =
         Inr (recon[i := word_of_int ((uint (raw ! i)
                + (\<lambda>l i. paeth_predictor l (uint (prev ! i)) (left_int bpp prev i))
                    (left_int bpp recon i) i) mod 256)])"
  using assms
  by (simp add: paeth_step_def left_of_in_range getbyte_in_range setbyte_and_255)

lemma unfilter_row_rule:
  assumes bpp: "0 < bpp" and raw: "length raw = n" and prev: "length prev = n"
    and filt: "filt \<le> 4"
  shows "\<exists>recon. unfilter_row bpp n filt raw prev = Inr recon \<and> length recon = n \<and>
           (\<forall>i<n. uint (recon ! i) =
              filter_rule filt (uint (raw ! i)) (left_int bpp recon i)
                (uint (prev ! i)) (left_int bpp prev i))"
proof -
  have z: "length (replicate n (0 :: byte)) = n" by simp
  from filt consider "filt = 0" | "filt = 1" | "filt = 2" | "filt = 3" | "filt = 4"
    by linarith
  then show ?thesis
  proof cases
    case 1
    then show ?thesis using raw by (simp add: unfilter_row_def filter_rule_def)
  next
    case 2
    have "\<exists>recon. for_each (sub_step bpp raw) [0..<n] (replicate n 0) = Inr recon \<and>
            length recon = n \<and>
            (\<forall>i<n. uint (recon ! i)
               = (uint (raw ! i) + (\<lambda>l i. l) (left_int bpp recon i) i) mod 256)"
      by (rule filter_loop [where pred = "\<lambda>l i. l", OF bpp _ z])
         (rule sub_step_eq [OF _ _ raw])
    then show ?thesis using 2 by (simp add: unfilter_row_def filter_rule_def)
  next
    case 3
    have "\<exists>recon. for_each (up_step raw prev) [0..<n] (replicate n 0) = Inr recon \<and>
            length recon = n \<and>
            (\<forall>i<n. uint (recon ! i)
               = (uint (raw ! i) + (\<lambda>l i. uint (prev ! i)) (left_int bpp recon i) i) mod 256)"
      by (rule filter_loop [where pred = "\<lambda>l i. uint (prev ! i)", OF bpp _ z])
         (rule up_step_eq [OF _ _ raw prev])
    then show ?thesis using 3 by (simp add: unfilter_row_def filter_rule_def)
  next
    case 4
    have "\<exists>recon. for_each (average_step bpp raw prev) [0..<n] (replicate n 0) = Inr recon \<and>
            length recon = n \<and>
            (\<forall>i<n. uint (recon ! i)
               = (uint (raw ! i)
                  + (\<lambda>l i. (l + uint (prev ! i)) div 2) (left_int bpp recon i) i) mod 256)"
      by (rule filter_loop [where pred = "\<lambda>l i. (l + uint (prev ! i)) div 2", OF bpp _ z])
         (rule average_step_eq [OF _ _ raw prev])
    then show ?thesis using 4 by (simp add: unfilter_row_def filter_rule_def)
  next
    case 5
    have "\<exists>recon. for_each (paeth_step bpp raw prev) [0..<n] (replicate n 0) = Inr recon \<and>
            length recon = n \<and>
            (\<forall>i<n. uint (recon ! i)
               = (uint (raw ! i)
                  + (\<lambda>l i. paeth_predictor l (uint (prev ! i)) (left_int bpp prev i))
                      (left_int bpp recon i) i) mod 256)"
      by (rule filter_loop
            [where pred = "\<lambda>l i. paeth_predictor l (uint (prev ! i)) (left_int bpp prev i)",
             OF bpp _ z])
         (rule paeth_step_eq [OF _ _ raw prev])
    then show ?thesis using 5 by (simp add: unfilter_row_def filter_rule_def)
  qed
qed

lemma unfilter_row_unsupported:
  "4 < filt \<Longrightarrow> unfilter_row bpp n filt raw prev = Inl (Fail (UnsupportedFilterType filt))"
  by (simp add: unfilter_row_def)

text \<open>
  The loop over the rows: each round reads one filter-type byte and \<open>n\<close> filtered bytes,
  which the size check of the payload guarantees to be there.
\<close>

lemma row_above_append: "y \<le> length rs \<Longrightarrow> row_above n (rs @ [r]) y = row_above n rs y"
  by (cases y) (simp_all add: row_above_def nth_append)

lemma row_reconstructed_append:
  "y < length rs \<Longrightarrow>
   row_reconstructed bpp n payload (rs @ [r]) y = row_reconstructed bpp n payload rs y"
  by (simp add: row_reconstructed_def row_above_append nth_append)

lemma scanline_in_payload:
  assumes "y < h" "length payload = (n + 1) * h"
  shows "y * (n + 1) + 1 + n \<le> length payload"
proof -
  have "Suc y * (n + 1) \<le> h * (n + 1)"
    using assms(1) by (intro mult_le_mono1) simp
  then show ?thesis using assms(2) by (simp add: mult.commute)
qed

lemma row_step_ok:
  assumes bpp: "0 < bpp" and len: "length payload = (n + 1) * h" and y: "y < h"
    and filt: "scanline_filter payload n y \<le> 4"
    and inv: "rows_invariant bpp n payload y s"
  shows "\<exists>s'. row_step bpp n payload y s = Inr s' \<and> rows_invariant bpp n payload (Suc y) s'"
proof -
  let ?raw = "py_slice payload (pos s + 1) (pos s + 1 + n)"
  from inv have p: "pos s = y * (n + 1)" and lr: "length (rows s) = y"
    and pr: "prev_row s = row_above n (rows s) y" and lp: "length (prev_row s) = n"
    and old: "\<forall>y'<y. row_reconstructed bpp n payload (rows s) y'"
    unfolding rows_invariant_def by blast+
  note fit = scanline_in_payload [OF y len]
  have g: "getitem payload (pos s) = Inr (payload ! (y * (n + 1)))"
    using fit by (simp add: getitem_def p)
  have lraw: "length ?raw = n"
    using fit by (simp add: py_slice_def p)
  have raw: "uint (?raw ! i) = scanline_byte payload n y i" if "i < n" for i
    using that fit by (simp add: py_slice_def p scanline_byte_def add.assoc)
  from unfilter_row_rule [OF bpp lraw lp filt]
  obtain recon where u: "unfilter_row bpp n (scanline_filter payload n y) ?raw (prev_row s) = Inr recon"
    and lrec: "length recon = n"
    and rule: "\<forall>i<n. uint (recon ! i) =
              filter_rule (scanline_filter payload n y) (uint (?raw ! i)) (left_int bpp recon i)
                (uint (prev_row s ! i)) (left_int bpp (prev_row s) i)"
    by blast
  let ?s' = "\<lparr>rows = rows s @ [recon], prev_row = recon, pos = pos s + 1 + n\<rparr>"
  have step: "row_step bpp n payload y s = Inr ?s'"
    using g u by (simp add: row_step_def scanline_filter_def)
  have new: "row_reconstructed bpp n payload (rows s @ [recon]) y"
    using rule raw lrec lr pr
    by (simp add: row_reconstructed_def row_above_append nth_append)
  have "row_reconstructed bpp n payload (rows s @ [recon]) y'" if "y' < Suc y" for y'
  proof (cases "y' = y")
    case True
    with new show ?thesis by simp
  next
    case False
    with that have "y' < y" by simp
    with old lr show ?thesis by (simp add: row_reconstructed_append)
  qed
  then have "rows_invariant bpp n payload (Suc y) ?s'"
    using p lr lrec by (simp add: rows_invariant_def row_above_def nth_append)
  with step show ?thesis by blast
qed

lemma rows_loop:
  assumes bpp: "0 < bpp" and len: "length payload = (n + 1) * h" and k: "k \<le> h"
    and filt: "\<forall>y<k. scanline_filter payload n y \<le> 4"
  shows "\<exists>s. for_each (row_step bpp n payload) [0..<k]
                \<lparr>rows = [], prev_row = replicate n 0, pos = 0\<rparr> = Inr s
             \<and> rows_invariant bpp n payload k s"
proof (rule for_each_range_invariant [where P = "rows_invariant bpp n payload"])
  show "rows_invariant bpp n payload 0 \<lparr>rows = [], prev_row = replicate n 0, pos = 0\<rparr>"
    by (simp add: rows_invariant_def row_above_def)
next
  fix y s
  assume "y < k" "rows_invariant bpp n payload y s"
  then show "\<exists>s'. row_step bpp n payload y s = Inr s' \<and> rows_invariant bpp n payload (Suc y) s'"
    using row_step_ok [OF bpp len _ _ , of y s] k filt by simp
qed

lemma unfilter_rows_ok:
  assumes "0 < bpp" "length payload = (n + 1) * h"
    and "\<forall>y<h. scanline_filter payload n y \<le> 4"
  shows "\<exists>rs. unfilter_rows bpp n h payload = Inr rs \<and> length rs = h \<and>
              (\<forall>y<h. row_reconstructed bpp n payload rs y)"
  using rows_loop [OF assms(1,2) order_refl assms(3)]
  by (auto simp: unfilter_rows_def rows_invariant_def)

lemma unfilter_rows_unsupported:
  assumes bpp: "0 < bpp" and len: "length payload = (n + 1) * h"
    and bad: "y < h" "4 < scanline_filter payload n y"
  shows "\<exists>y0\<le>y. 4 < scanline_filter payload n y0
           \<and> (\<forall>y'<y0. scanline_filter payload n y' \<le> 4)
           \<and> unfilter_rows bpp n h payload
               = Inl (Fail (UnsupportedFilterType (scanline_filter payload n y0)))"
proof -
  from bad obtain y0 where y0: "y0 < h" "4 < scanline_filter payload n y0"
    and least: "\<forall>y'<y0. \<not> (y' < h \<and> 4 < scanline_filter payload n y')"
    using exists_least_iff [of "\<lambda>y. y < h \<and> 4 < scanline_filter payload n y"] by blast
  then have before: "\<forall>y'<y0. scanline_filter payload n y' \<le> 4"
    by (metis not_le_imp_less less_trans)
  from least bad have first: "y0 \<le> y"
    by (metis not_le_imp_less)
  from rows_loop [OF bpp len less_imp_le [OF y0(1)] before]
  obtain s where s: "for_each (row_step bpp n payload) [0..<y0]
                \<lparr>rows = [], prev_row = replicate n 0, pos = 0\<rparr> = Inr s"
    and inv: "rows_invariant bpp n payload y0 s"
    by blast
  note fit = scanline_in_payload [OF y0(1) len]
  from inv have p: "pos s = y0 * (n + 1)" unfolding rows_invariant_def by blast
  have "getitem payload (pos s) = Inr (payload ! (y0 * (n + 1)))"
    using fit by (simp add: getitem_def p)
  then have fail: "row_step bpp n payload y0 s
                   = Inl (Fail (UnsupportedFilterType (scanline_filter payload n y0)))"
    using y0(2) by (simp add: row_step_def scanline_filter_def unfilter_row_unsupported)
  have "[0..<h] = [0..<y0] @ [y0..<h]"
    using upt_add_eq_append [of 0 y0 "h - y0"] y0(1) by simp
  moreover have "[y0..<h] = y0 # [Suc y0..<h]"
    using y0(1) by (simp add: upt_conv_Cons)
  ultimately have "for_each (row_step bpp n payload) [0..<h]
                \<lparr>rows = [], prev_row = replicate n 0, pos = 0\<rparr>
             = Inl (Fail (UnsupportedFilterType (scanline_filter payload n y0)))"
    using s fail by (simp add: for_each_append)
  then have "unfilter_rows bpp n h payload
               = Inl (Fail (UnsupportedFilterType (scanline_filter payload n y0)))"
    by (simp add: unfilter_rows_def)
  with first y0(2) before show ?thesis by blast
qed

lemma channels_positive: "channels_by_color_type ct = Some c \<Longrightarrow> 0 < c"
  by (auto simp: channels_by_color_type_def split: if_splits)

lemma png_payload_Inr:
  assumes "png_payload inflate data = Inr (w, h, ct, bpp, payload)"
  shows "channels_by_color_type ct = Some bpp" "0 < bpp" "length payload = (w * bpp + 1) * h"
proof -
  from assms show c: "channels_by_color_type ct = Some bpp"
    and "length payload = (w * bpp + 1) * h"
    by (auto simp: png_payload_def Let_def split: if_splits sum.splits option.splits prod.splits)
  from channels_positive [OF c] show "0 < bpp" .
qed

text \<open>
  The example decompressor and the example file: what the decoder has before it undoes
  the filters, and lists given by their elements.
\<close>

lemma png_payload_gray_alpha_2x5:
  assumes ls: "length stream = 36" and lc: "length crc = 4"
    and inf: "inflate stream = Some payload" and lp: "length payload = 25"
  shows "png_payload inflate (gray_alpha_2x5 stream crc) = Inr (2, 5, 4, 2, payload)"
proof -
  define data where "data = gray_alpha_2x5 stream crc"
  have d: "data = PNG_SIGNATURE @
     [0, 0, 0, 13] @ IHDR @ [0, 0, 0, 2, 0, 0, 0, 5, 8, 4, 0, 0, 0] @ [197, 186, 245, 23] @
     [0, 0, 0, 36] @ IDAT @ stream @ crc @
     [0, 0, 0, 0] @ IEND @ [174, 66, 96, 130]"
    by (simp add: data_def gray_alpha_2x5_def)
  have len: "length data = 93" and sig: "take 8 data = PNG_SIGNATURE"
    by (simp_all add: d ls lc PNG_SIGNATURE_def IHDR_def IDAT_def IEND_def)
  have l1: "unpack_from_I_be data 8 = Inr 13"
    by (simp add: d unpack_from_I_be_def PNG_SIGNATURE_def IHDR_def be32_def)
  have t1: "py_slice data 12 16 = IHDR"
    by (simp add: d py_slice_def PNG_SIGNATURE_def IHDR_def)
  have h1: "unpack_from_IHDR (py_slice data 16 29) = Inr (2, 5, 8, 4, 0, 0, 0)"
    by (simp add: d py_slice_def PNG_SIGNATURE_def IHDR_def unpack_from_IHDR_def be32_def)
  have l2: "unpack_from_I_be data 33 = Inr 36"
    by (simp add: d unpack_from_I_be_def PNG_SIGNATURE_def IHDR_def be32_def nth_append)
  have t2: "py_slice data 37 41 = IDAT"
    by (simp add: d py_slice_def PNG_SIGNATURE_def IHDR_def IDAT_def)
  have d2: "py_slice data 41 77 = stream"
    by (simp add: d py_slice_def PNG_SIGNATURE_def IHDR_def IDAT_def ls)
  have l3: "unpack_from_I_be data 81 = Inr 0"
    by (simp add: d unpack_from_I_be_def PNG_SIGNATURE_def IHDR_def IDAT_def be32_def nth_append
        ls lc)
  have t3: "py_slice data 85 89 = IEND"
    by (simp add: d py_slice_def PNG_SIGNATURE_def IHDR_def IDAT_def IEND_def ls lc)
  have ne: "IDAT \<noteq> IHDR" "IEND \<noteq> IHDR" "IEND \<noteq> IDAT"
    by (simp_all add: IDAT_def IHDR_def IEND_def)
  have r3: "read_chunks data 81 st = Inr st" for st
    by (subst read_chunks.simps) (simp add: len l3 t3 ne)
  have r2: "read_chunks data 33 st = Inr (st\<lparr>idat_chunks := idat_chunks st @ [stream]\<rparr>)" for st
    by (subst read_chunks.simps) (simp add: len l2 t2 d2 ne r3)
  have r1: "read_chunks data 8 \<lparr>header = None, idat_chunks = []\<rparr>
            = Inr \<lparr>header = Some (2, 5, 8, 4), idat_chunks = [stream]\<rparr>"
    by (subst read_chunks.simps) (simp add: len l1 t1 h1 r2)
  have "png_payload inflate data = Inr (2, 5, 4, 2, payload)"
    by (simp add: png_payload_def len sig r1 channels_by_color_type_def inf lp)
  then show ?thesis by (simp only: data_def)
qed

lemma zlib_stored_five_filters:
  "zlib_stored
     [120, 1, 1, 25, 0, 230, 255, 0, 10, 200, 30, 0, 1, 5, 100, 250, 200, 2, 1, 2, 3, 4, 3,
      7, 7, 7, 11, 4, 1, 250, 9, 9, 62, 233, 4, 93]
   = Some [0, 10, 200, 30, 0, 1, 5, 100, 250, 200, 2, 1, 2, 3, 4, 3, 7, 7, 7, 11, 4, 1,
           250, 9, 9]"
  by (simp add: zlib_stored_def adler32_def le16_def)

lemma zlib_stored_filter_nine:
  "zlib_stored
     [120, 1, 1, 25, 0, 230, 255, 0, 10, 200, 30, 0, 1, 5, 100, 250, 200, 2, 1, 2, 3, 4, 9,
      7, 7, 7, 11, 4, 1, 250, 9, 9, 63, 37, 4, 99]
   = Some [0, 10, 200, 30, 0, 1, 5, 100, 250, 200, 2, 1, 2, 3, 4, 9, 7, 7, 7, 11, 4, 1,
           250, 9, 9]"
  by (simp add: zlib_stored_def adler32_def le16_def)

lemma bytes_of_4:
  fixes xs :: "byte list"
  assumes "length xs = 4"
    and "uint (xs ! 0) = a" "uint (xs ! 1) = b" "uint (xs ! 2) = c" "uint (xs ! 3) = d"
  shows "xs = [word_of_int a, word_of_int b, word_of_int c, word_of_int d]"
proof -
  from assms(1) obtain x0 x1 x2 x3 where "xs = [x0, x1, x2, x3]"
    by (auto simp: length_Suc_conv numeral_eq_Suc)
  with assms(2-) show ?thesis by auto
qed

lemma list_of_5:
  assumes "length xs = 5"
    and "xs ! 0 = a" "xs ! 1 = b" "xs ! 2 = c" "xs ! 3 = d" "xs ! 4 = e"
  shows "xs = [a, b, c, d, e]"
proof -
  from assms(1) obtain x0 x1 x2 x3 x4 where "xs = [x0, x1, x2, x3, x4]"
    by (auto simp: length_Suc_conv numeral_eq_Suc)
  with assms(2-) show ?thesis by auto
qed

lemma less_5_cases:
  fixes y :: nat
  assumes "y < 5"
  shows "y = 0 \<or> y = Suc 0 \<or> y = 2 \<or> y = 3 \<or> y = 4"
  using assms by arith

text \<open>
  Claim C1. For every input the decoder accepts, there are as many rows as the height, and
  each row is reconstructed from its filter-type byte, its filtered bytes and the row above
  (zeros for the first row) by the rule of its type: type 0 copies the filtered bytes,
  type 1 adds the byte \<open>bpp\<close> to the left (0 for \<open>i < bpp\<close>), type 2 the byte above, type 3
  the average of left and above rounded down, type 4 the Paeth prediction of left, above
  and upper left (0 for \<open>i < bpp\<close>), every sum modulo 256; no accepted input has a
  filter-type byte beyond 4. Once the payload has its expected size, a row with a
  filter-type byte other than 0 to 4 makes the decoder fail, with the filter-type byte of
  the first such row as the unsupported filter type; and a payload whose filter-type bytes
  are all 0 to 4 is decoded, to an image of the width, the height and the colour type of
  the header.
\<close>

theorem decode_png_filter_rules:
  "(decode_png inflate data = Inr img \<longrightarrow>
      (\<exists>bpp payload.
          png_payload inflate data = Inr (width img, height img, color_type img, bpp, payload)
        \<and> length (pixel_rows img) = height img
        \<and> (\<forall>y<height img.
              scanline_filter payload (width img * bpp) y \<le> 4
            \<and> length (pixel_rows img ! y) = width img * bpp
            \<and> (\<forall>i<width img * bpp.
                  uint (pixel_rows img ! y ! i) =
                    filter_rule (scanline_filter payload (width img * bpp) y)
                      (scanline_byte payload (width img * bpp) y i)
                      (left_int bpp (pixel_rows img ! y) i)
                      (uint (row_above (width img * bpp) (pixel_rows img) y ! i))
                      (left_int bpp (row_above (width img * bpp) (pixel_rows img) y) i)))))
   \<and> (png_payload inflate data = Inr (w, h, ct, bpp', payload')
        \<and> y' < h \<and> 4 < scanline_filter payload' (w * bpp') y' \<longrightarrow>
        (\<exists>y0\<le>y'. 4 < scanline_filter payload' (w * bpp') y0
           \<and> (\<forall>y<y0. scanline_filter payload' (w * bpp') y \<le> 4)
           \<and> decode_png inflate data
               = Inl (Fail (UnsupportedFilterType (scanline_filter payload' (w * bpp') y0)))))
   \<and> (png_payload inflate data = Inr (w, h, ct, bpp', payload')
        \<and> (\<forall>y<h. scanline_filter payload' (w * bpp') y \<le> 4) \<longrightarrow>
        (\<exists>img'. decode_png inflate data = Inr img'
           \<and> width img' = w \<and> height img' = h \<and> color_type img' = ct))"
proof (intro conjI impI)
  assume dec: "decode_png inflate data = Inr img"
  then obtain w0 h0 ct0 bpp payload rs
    where pay: "png_payload inflate data = Inr (w0, h0, ct0, bpp, payload)"
      and rs: "unfilter_rows bpp (w0 * bpp) h0 payload = Inr rs"
      and img: "img = \<lparr>width = w0, height = h0, color_type = ct0, pixel_rows = rs\<rparr>"
    by (auto simp: decode_png_def split: sum.splits prod.splits)
  note facts = png_payload_Inr [OF pay]
  have ok: "\<forall>y<h0. scanline_filter payload (w0 * bpp) y \<le> 4"
  proof (rule ccontr)
    assume "\<not> ?thesis"
    then obtain y where "y < h0" "4 < scanline_filter payload (w0 * bpp) y"
      by (auto simp: not_le)
    from unfilter_rows_unsupported [OF facts(2,3) this] rs show False by auto
  qed
  from unfilter_rows_ok [OF facts(2,3) ok] rs
  have "length rs = h0" "\<forall>y<h0. row_reconstructed bpp (w0 * bpp) payload rs y"
    by auto
  with ok pay img
  show "\<exists>bpp payload.
          png_payload inflate data = Inr (width img, height img, color_type img, bpp, payload)
        \<and> length (pixel_rows img) = height img
        \<and> (\<forall>y<height img.
              scanline_filter payload (width img * bpp) y \<le> 4
            \<and> length (pixel_rows img ! y) = width img * bpp
            \<and> (\<forall>i<width img * bpp.
                  uint (pixel_rows img ! y ! i) =
                    filter_rule (scanline_filter payload (width img * bpp) y)
                      (scanline_byte payload (width img * bpp) y i)
                      (left_int bpp (pixel_rows img ! y) i)
                      (uint (row_above (width img * bpp) (pixel_rows img) y ! i))
                      (left_int bpp (row_above (width img * bpp) (pixel_rows img) y) i)))"
    by (intro exI [of _ bpp] exI [of _ payload]) (simp add: row_reconstructed_def)
next
  assume "png_payload inflate data = Inr (w, h, ct, bpp', payload')
        \<and> y' < h \<and> 4 < scanline_filter payload' (w * bpp') y'"
  then have pay: "png_payload inflate data = Inr (w, h, ct, bpp', payload')"
    and bad: "y' < h" "4 < scanline_filter payload' (w * bpp') y'"
    by simp_all
  note facts = png_payload_Inr [OF pay]
  from unfilter_rows_unsupported [OF facts(2,3) bad]
  show "\<exists>y0\<le>y'. 4 < scanline_filter payload' (w * bpp') y0
           \<and> (\<forall>y<y0. scanline_filter payload' (w * bpp') y \<le> 4)
           \<and> decode_png inflate data
               = Inl (Fail (UnsupportedFilterType (scanline_filter payload' (w * bpp') y0)))"
    by (auto simp: decode_png_def pay)
next
  assume "png_payload inflate data = Inr (w, h, ct, bpp', payload')
        \<and> (\<forall>y<h. scanline_filter payload' (w * bpp') y \<le> 4)"
  then have pay: "png_payload inflate data = Inr (w, h, ct, bpp', payload')"
    and ok: "\<forall>y<h. scanline_filter payload' (w * bpp') y \<le> 4"
    by simp_all
  note facts = png_payload_Inr [OF pay]
  from unfilter_rows_ok [OF facts(2,3) ok]
  obtain rs where "unfilter_rows bpp' (w * bpp') h payload' = Inr rs" by blast
  then show "\<exists>img'. decode_png inflate data = Inr img'
           \<and> width img' = w \<and> height img' = h \<and> color_type img' = ct"
    by (simp add: decode_png_def pay)
qed

theorem decode_png_filter_rules_witness:
  "png_payload zlib_stored
     (gray_alpha_2x5
        [120, 1, 1, 25, 0, 230, 255, 0, 10, 200, 30, 0, 1, 5, 100, 250, 200, 2, 1, 2, 3, 4,
         3, 7, 7, 7, 11, 4, 1, 250, 9, 9, 62, 233, 4, 93]
        [17, 121, 236, 118])
     = Inr (2, 5, 4, 2,
           [0, 10, 200, 30, 0, 1, 5, 100, 250, 200, 2, 1, 2, 3, 4, 3, 7, 7, 7, 11, 4, 1,
            250, 9, 9])
   \<and> (\<exists>img. decode_png zlib_stored
            (gray_alpha_2x5
               [120, 1, 1, 25, 0, 230, 255, 0, 10, 200, 30, 0, 1, 5, 100, 250, 200, 2, 1,
                2, 3, 4, 3, 7, 7, 7, 11, 4, 1, 250, 9, 9, 62, 233, 4, 93]
               [17, 121, 236, 118]) = Inr img
          \<and> width img = 2 \<and> height img = 5 \<and> color_type img = 4
          \<and> pixel_rows img = [[10, 200, 30, 0], [5, 100, 255, 44], [6, 102, 2, 48], [10, 58, 13, 64],
                            [11, 52, 22, 67]])
   \<and> png_payload zlib_stored
       (gray_alpha_2x5
          [120, 1, 1, 25, 0, 230, 255, 0, 10, 200, 30, 0, 1, 5, 100, 250, 200, 2, 1, 2, 3,
           4, 9, 7, 7, 7, 11, 4, 1, 250, 9, 9, 63, 37, 4, 99]
          [34, 38, 35, 7])
       = Inr (2, 5, 4, 2,
             [0, 10, 200, 30, 0, 1, 5, 100, 250, 200, 2, 1, 2, 3, 4, 9, 7, 7, 7, 11, 4, 1,
              250, 9, 9])
   \<and> decode_png zlib_stored
       (gray_alpha_2x5
          [120, 1, 1, 25, 0, 230, 255, 0, 10, 200, 30, 0, 1, 5, 100, 250, 200, 2, 1, 2, 3,
           4, 9, 7, 7, 7, 11, 4, 1, 250, 9, 9, 63, 37, 4, 99]
          [34, 38, 35, 7])
       = Inl (Fail (UnsupportedFilterType 9))"
proof -
  let ?s = "[120, 1, 1, 25, 0, 230, 255, 0, 10, 200, 30, 0, 1, 5, 100, 250, 200, 2, 1, 2,
             3, 4, 3, 7, 7, 7, 11, 4, 1, 250, 9, 9, 62, 233, 4, 93] :: byte list"
  let ?p = "[0, 10, 200, 30, 0, 1, 5, 100, 250, 200, 2, 1, 2, 3, 4, 3, 7, 7, 7, 11, 4, 1,
             250, 9, 9] :: byte list"
  let ?s' = "[120, 1, 1, 25, 0, 230, 255, 0, 10, 200, 30, 0, 1, 5, 100, 250, 200, 2, 1, 2,
              3, 4, 9, 7, 7, 7, 11, 4, 1, 250, 9, 9, 63, 37, 4, 99] :: byte list"
  let ?p' = "[0, 10, 200, 30, 0, 1, 5, 100, 250, 200, 2, 1, 2, 3, 4, 9, 7, 7, 7, 11, 4, 1,
              250, 9, 9] :: byte list"
  let ?file = "gray_alpha_2x5 ?s [17, 121, 236, 118]"
  let ?file' = "gray_alpha_2x5 ?s' [34, 38, 35, 7]"
  have pay: "png_payload zlib_stored ?file = Inr (2, 5, 4, 2, ?p)"
    by (rule png_payload_gray_alpha_2x5) (simp_all add: zlib_stored_five_filters)
  have pay': "png_payload zlib_stored ?file' = Inr (2, 5, 4, 2, ?p')"
    by (rule png_payload_gray_alpha_2x5) (simp_all add: zlib_stored_filter_nine)
  have f0: "scanline_filter ?p 4 0 = 0" and f1: "scanline_filter ?p 4 (Suc 0) = 1"
    and f2: "scanline_filter ?p 4 2 = 2" and f3: "scanline_filter ?p 4 3 = 3"
    and f4: "scanline_filter ?p 4 4 = 4"
    by (simp_all add: scanline_filter_def)
  have ok: "\<forall>y<5. scanline_filter ?p (2 * 2) y \<le> 4"
  proof (intro allI impI)
    fix y :: nat
    assume "y < 5"
    from less_5_cases [OF this] f0 f1 f2 f3 f4
    show "scanline_filter ?p (2 * 2) y \<le> 4" by auto
  qed
  from decode_png_filter_rules [where inflate = zlib_stored and data = ?file and w = 2 and h = 5
      and ct = 4 and bpp' = 2 and payload' = ?p] pay ok
  obtain img where dec: "decode_png zlib_stored ?file = Inr img"
    and dims: "width img = 2" "height img = 5" "color_type img = 4"
    by blast
  define R where "R = pixel_rows img"
  from decode_png_filter_rules [where inflate = zlib_stored and data = ?file and img = img]
    dec pay dims
  have len: "length R = 5"
    and rule: "\<forall>y<5. length (R ! y) = 4 \<and> (\<forall>i<4. uint (R ! y ! i) =
                    filter_rule (scanline_filter ?p 4 y) (scanline_byte ?p 4 y i)
                      (left_int 2 (R ! y) i)
                      (uint (row_above 4 R y ! i))
                      (left_int 2 (row_above 4 R y) i))"
    unfolding R_def by auto
  have n: "length (R ! y) = 4" if "y < 5" for y
    using rule that by blast
  have r: "uint (R ! y ! i) =
                    filter_rule (scanline_filter ?p 4 y) (scanline_byte ?p 4 y i)
                      (left_int 2 (R ! y) i)
                      (uint (row_above 4 R y ! i))
                      (left_int 2 (row_above 4 R y) i)" if "y < 5" "i < 4" for y i
    using rule that by blast
  from r [of 0 0]
  have v00: "uint (R ! 0 ! 0) = 10"
    by (simp add: f0 scanline_byte_def filter_rule_def left_int_def row_above_def
        paeth_predictor_def)
  from r [of 0 "Suc 0"] v00
  have v01: "uint (R ! 0 ! 1) = 200"
    by (simp add: f0 scanline_byte_def filter_rule_def left_int_def row_above_def
        paeth_predictor_def)
  from r [of 0 2] v00 v01
  have v02: "uint (R ! 0 ! 2) = 30"
    by (simp add: f0 scanline_byte_def filter_rule_def left_int_def row_above_def
        paeth_predictor_def)
  from r [of 0 3] v00 v01 v02
  have v03: "uint (R ! 0 ! 3) = 0"
    by (simp add: f0 scanline_byte_def filter_rule_def left_int_def row_above_def
        paeth_predictor_def)
  from r [of "Suc 0" 0] v00 v01 v02 v03
  have v10: "uint (R ! 1 ! 0) = 5"
    by (simp add: f1 scanline_byte_def filter_rule_def left_int_def row_above_def
        paeth_predictor_def)
  from r [of "Suc 0" "Suc 0"] v00 v01 v02 v03 v10
  have v11: "uint (R ! 1 ! 1) = 100"
    by (simp add: f1 scanline_byte_def filter_rule_def left_int_def row_above_def
        paeth_predictor_def)
  from r [of "Suc 0" 2] v00 v01 v02 v03 v10 v11
  have v12: "uint (R ! 1 ! 2) = 255"
    by (simp add: f1 scanline_byte_def filter_rule_def left_int_def row_above_def
        paeth_predictor_def)
  from r [of "Suc 0" 3] v00 v01 v02 v03 v10 v11 v12
  have v13: "uint (R ! 1 ! 3) = 44"
    by (simp add: f1 scanline_byte_def filter_rule_def left_int_def row_above_def
        paeth_predictor_def)
  from r [of 2 0] v00 v01 v02 v03 v10 v11 v12 v13
  have v20: "uint (R ! 2 ! 0) = 6"
    by (simp add: f2 scanline_byte_def filter_rule_def left_int_def row_above_def
        paeth_predictor_def)
  from r [of 2 "Suc 0"] v01 v02 v03 v10 v11 v12 v13 v20
  have v21: "uint (R ! 2 ! 1) = 102"
    by (simp add: f2 scanline_byte_def filter_rule_def left_int_def row_above_def
        paeth_predictor_def)
  from r [of 2 2] v02 v03 v10 v11 v12 v13 v20 v21
  have v22: "uint (R ! 2 ! 2) = 2"
    by (simp add: f2 scanline_byte_def filter_rule_def left_int_def row_above_def
        paeth_predictor_def)
  from r [of 2 3] v03 v10 v11 v12 v13 v20 v21 v22
  have v23: "uint (R ! 2 ! 3) = 48"
    by (simp add: f2 scanline_byte_def filter_rule_def left_int_def row_above_def
        paeth_predictor_def)
  from r [of 3 0] v10 v11 v12 v13 v20 v21 v22 v23
  have v30: "uint (R ! 3 ! 0) = 10"
    by (simp add: f3 scanline_byte_def filter_rule_def left_int_def row_above_def
        paeth_predictor_def)
  from r [of 3 "Suc 0"] v11 v12 v13 v20 v21 v22 v23 v30
  have v31: "uint (R ! 3 ! 1) = 58"
    by (simp add: f3 scanline_byte_def filter_rule_def left_int_def row_above_def
        paeth_predictor_def)
  from r [of 3 2] v12 v13 v20 v21 v22 v23 v30 v31
  have v32: "uint (R ! 3 ! 2) = 13"
    by (simp add: f3 scanline_byte_def filter_rule_def left_int_def row_above_def
        paeth_predictor_def)
  from r [of 3 3] v13 v20 v21 v22 v23 v30 v31 v32
  have v33: "uint (R ! 3 ! 3) = 64"
    by (simp add: f3 scanline_byte_def filter_rule_def left_int_def row_above_def
        paeth_predictor_def)
  from r [of 4 0] v20 v21 v22 v23 v30 v31 v32 v33
  have v40: "uint (R ! 4 ! 0) = 11"
    by (simp add: f4 scanline_byte_def filter_rule_def left_int_def row_above_def
        paeth_predictor_def)
  from r [of 4 "Suc 0"] v21 v22 v23 v30 v31 v32 v33 v40
  have v41: "uint (R ! 4 ! 1) = 52"
    by (simp add: f4 scanline_byte_def filter_rule_def left_int_def row_above_def
        paeth_predictor_def)
  from r [of 4 2] v22 v23 v30 v31 v32 v33 v40 v41
  have v42: "uint (R ! 4 ! 2) = 22"
    by (simp add: f4 scanline_byte_def filter_rule_def left_int_def row_above_def
        paeth_predictor_def)
  from r [of 4 3] v23 v30 v31 v32 v33 v40 v41 v42
  have v43: "uint (R ! 4 ! 3) = 67"
    by (simp add: f4 scanline_byte_def filter_rule_def left_int_def row_above_def
        paeth_predictor_def)
  have row0: "R ! 0 = [10, 200, 30, 0]"
    using bytes_of_4 [OF n v00 v01 v02 v03] by simp
  have row1: "R ! 1 = [5, 100, 255, 44]"
    using bytes_of_4 [OF n v10 v11 v12 v13] by simp
  have row2: "R ! 2 = [6, 102, 2, 48]"
    using bytes_of_4 [OF n v20 v21 v22 v23] by simp
  have row3: "R ! 3 = [10, 58, 13, 64]"
    using bytes_of_4 [OF n v30 v31 v32 v33] by simp
  have row4: "R ! 4 = [11, 52, 22, 67]"
    using bytes_of_4 [OF n v40 v41 v42 v43] by simp
  have rows: "pixel_rows img = [[10, 200, 30, 0], [5, 100, 255, 44], [6, 102, 2, 48], [10, 58, 13, 64], [11, 52, 22, 67]]"
    unfolding R_def [symmetric] by (rule list_of_5 [OF len row0 row1 row2 row3 row4])
  have f0': "scanline_filter ?p' 4 0 = 0" and f1': "scanline_filter ?p' 4 (Suc 0) = 1"
    and f2': "scanline_filter ?p' 4 2 = 2" and f3': "scanline_filter ?p' 4 3 = 9"
    by (simp_all add: scanline_filter_def)
  have "(3 :: nat) < 5 \<and> 4 < scanline_filter ?p' (2 * 2) 3"
    using f3' by simp
  with decode_png_filter_rules [where inflate = zlib_stored and data = ?file' and w = 2 and h = 5
      and ct = 4 and bpp' = 2 and payload' = ?p' and y' = 3] pay'
  obtain y0 where y0: "y0 \<le> 3" "4 < scanline_filter ?p' (2 * 2) y0"
    and fail: "decode_png zlib_stored ?file'
               = Inl (Fail (UnsupportedFilterType (scanline_filter ?p' (2 * 2) y0)))"
    by blast
  from y0(1) have "y0 = 0 \<or> y0 = Suc 0 \<or> y0 = 2 \<or> y0 = 3" by arith
  with y0(2) f0' f1' f2' have "y0 = 3" by auto
  with fail f3' have bad: "decode_png zlib_stored ?file' = Inl (Fail (UnsupportedFilterType 9))"
    by simp
  from pay pay' dec dims rows bad show ?thesis by blast
qed

subsection \<open>The alpha coverage\<close>

text \<open>
  On an image with the invariant no read is out of range, so the scan is a fold of
  \<open>add_pixel\<close> over the pixels that count, and the four bounds are the minima and maxima of
  their coordinates together with the initial values.
\<close>

lemma for_each_pure:
  "(\<And>i s. i \<in> set xs \<Longrightarrow> body i s = Inr (g i s)) \<Longrightarrow> for_each body xs s = Inr (fold g xs s)"
  by (induction xs arbitrary: s) simp_all

lemma pixel_alpha_in_raster:
  assumes inv: "raster_invariant img" and y: "y < height img" and x: "x < width img"
  shows "pixel_alpha (color_type img) (pixel_rows img ! y) x = Inr (alpha img x y)"
proof -
  from inv obtain c where c: "channels_by_color_type (color_type img) = Some c"
    and h: "length (pixel_rows img) = height img"
    and rows: "\<forall>row\<in>set (pixel_rows img). length row = width img * c"
    by (auto simp: raster_invariant_def)
  from y h rows have len: "length (pixel_rows img ! y) = width img * c" by simp
  from c consider "color_type img = 0" | "color_type img = 2"
    | "color_type img = 4" "c = 2" | "color_type img = 6" "c = 4"
    by (auto simp: channels_by_color_type_def split: if_splits)
  then show ?thesis
  proof cases
    case 3
    then have "x * 2 + 1 < length (pixel_rows img ! y)" using x len by simp
    with 3 show ?thesis by (simp add: pixel_alpha_def alpha_def getbyte_in_range)
  next
    case 4
    then have "x * 4 + 3 < length (pixel_rows img ! y)" using x len by simp
    with 4 show ?thesis by (simp add: pixel_alpha_def alpha_def getbyte_in_range)
  qed (simp_all add: pixel_alpha_def alpha_def)
qed

lemma pixel_step_in_raster:
  assumes "raster_invariant img" "y < height img" "x < width img"
  shows "pixel_step (color_type img) (pixel_rows img ! y) y x b
         = Inr (if 0 < alpha img x y then add_pixel (x, y) b else b)"
  by (simp add: pixel_step_def pixel_alpha_in_raster [OF assms] add_pixel_def)

lemma fold_row:
  "fold (\<lambda>x b. if P x then f (x, y) b else b) xs b
   = fold f (map (\<lambda>x. (x, y)) (filter P xs)) b"
  by (induction xs arbitrary: b) simp_all

lemma scan_row_in_raster:
  assumes inv: "raster_invariant img" and y: "y < height img"
  shows "scan_row (color_type img) (width img) (y, pixel_rows img ! y) b
         = Inr (fold add_pixel
                  (map (\<lambda>x. (x, y)) (filter (\<lambda>x. 0 < alpha img x y) [0..<width img])) b)"
proof -
  have "scan_row (color_type img) (width img) (y, pixel_rows img ! y) b
        = Inr (fold (\<lambda>x b. if 0 < alpha img x y then add_pixel (x, y) b else b)
                 [0..<width img] b)"
    unfolding scan_row_def fst_conv snd_conv
    by (rule for_each_pure) (simp add: pixel_step_in_raster [OF inv y])
  then show ?thesis
    by (simp only: fold_row [where P = "\<lambda>x. 0 < alpha img x y" and f = add_pixel])
qed

lemma enumerate_rows: "enumerate 0 rs = map (\<lambda>y. (y, rs ! y)) [0..<length rs]"
  by (rule nth_equalityI) (simp_all add: nth_enumerate_eq)

lemma fold_over_concat: "fold f (concat xss) b = fold (fold f) xss b"
  by (induction xss arbitrary: b) simp_all

lemma fold_over_map: "fold f (map g xs) b = fold (\<lambda>x. f (g x)) xs b"
  by (induction xs arbitrary: b) simp_all

lemma scan_in_raster:
  assumes inv: "raster_invariant img"
  shows "for_each (scan_row (color_type img) (width img)) (enumerate 0 (pixel_rows img)) b
         = Inr (fold add_pixel (opaque_list img) b)"
proof -
  from inv have h: "length (pixel_rows img) = height img"
    by (auto simp: raster_invariant_def)
  let ?row = "\<lambda>y. map (\<lambda>x. (x, y)) (filter (\<lambda>x. 0 < alpha img x y) [0..<width img])"
  have "for_each (scan_row (color_type img) (width img)) (enumerate 0 (pixel_rows img)) b
        = Inr (fold (\<lambda>yrow. fold add_pixel (?row (fst yrow))) (enumerate 0 (pixel_rows img)) b)"
  proof (rule for_each_pure)
    fix yrow s
    assume "yrow \<in> set (enumerate 0 (pixel_rows img))"
    then have "fst yrow < height img" "yrow = (fst yrow, pixel_rows img ! fst yrow)"
      using h by (auto simp: in_set_enumerate_eq)
    then show "scan_row (color_type img) (width img) yrow s
               = Inr (fold add_pixel (?row (fst yrow)) s)"
      using scan_row_in_raster [OF inv, of "fst yrow" s] by simp
  qed
  also have "fold (\<lambda>yrow. fold add_pixel (?row (fst yrow))) (enumerate 0 (pixel_rows img)) b
             = fold (\<lambda>y. fold add_pixel (?row y)) [0..<height img] b"
    by (simp only: enumerate_rows h fold_over_map fst_conv)
  also have "\<dots> = fold add_pixel (opaque_list img) b"
    by (simp only: opaque_list_def fold_over_concat fold_over_map)
  finally show ?thesis .
qed

lemma set_opaque_list: "set (opaque_list img) = opaque_pixels img"
  by (auto simp: opaque_list_def opaque_pixels_def)

lemma fold_add_pixel_fields:
  "min_x (fold add_pixel ps b) = fold min (map (\<lambda>p. int (fst p)) ps) (min_x b)"
  "max_x (fold add_pixel ps b) = fold max (map (\<lambda>p. int (fst p)) ps) (max_x b)"
  "min_y (fold add_pixel ps b) = fold min (map (\<lambda>p. int (snd p)) ps) (min_y b)"
  "max_y (fold add_pixel ps b) = fold max (map (\<lambda>p. int (snd p)) ps) (max_y b)"
  by (induction ps arbitrary: b) (simp_all add: add_pixel_def min.commute max.commute)

lemma fold_min_Min: "fold min xs (a :: int) = Min (insert a (set xs))"
  using Min.set_eq_fold [of a xs] by simp

lemma fold_max_Max: "fold max xs (a :: int) = Max (insert a (set xs))"
  using Max.set_eq_fold [of a xs] by simp

lemma Min_insert_above:
  assumes "finite A" "A \<noteq> {}" "\<forall>x\<in>A. x < k"
  shows "Min (insert (int k) (int ` A)) = int (Min A)"
proof -
  have "Min (int ` A) = int (Min A)"
    using assms(1,2) by (intro mono_Min_commute [symmetric]) (auto simp: mono_def)
  moreover have "Min A < k" using assms by simp
  ultimately show ?thesis using assms(1,2) by simp
qed

lemma Max_insert_below:
  assumes "finite A" "A \<noteq> {}"
  shows "Max (insert (- 1) (int ` A)) = int (Max A)"
proof -
  have "Max (int ` A) = int (Max A)"
    using assms by (intro mono_Max_commute [symmetric]) (auto simp: mono_def)
  then show ?thesis using assms by simp
qed

lemma finite_opaque_pixels: "finite (opaque_pixels img)"
  using set_opaque_list [of img, symmetric] by simp

lemma scanned_bounds:
  fixes img
  defines "b \<equiv> fold add_pixel (opaque_list img)
                  \<lparr>min_x = int (width img), min_y = int (height img), max_x = - 1, max_y = - 1\<rparr>"
  shows "opaque_pixels img = {} \<Longrightarrow> max_x b < min_x b"
    and "opaque_pixels img \<noteq> {} \<Longrightarrow>
           min_x b = int (Min (fst ` opaque_pixels img)) \<and>
           max_x b = int (Max (fst ` opaque_pixels img)) \<and>
           min_y b = int (Min (snd ` opaque_pixels img)) \<and>
           max_y b = int (Max (snd ` opaque_pixels img))"
proof -
  have fields:
    "min_x b = Min (insert (int (width img)) (int ` fst ` opaque_pixels img))"
    "max_x b = Max (insert (- 1) (int ` fst ` opaque_pixels img))"
    "min_y b = Min (insert (int (height img)) (int ` snd ` opaque_pixels img))"
    "max_y b = Max (insert (- 1) (int ` snd ` opaque_pixels img))"
    by (simp_all add: b_def fold_add_pixel_fields fold_min_Min fold_max_Max
        set_opaque_list [symmetric] image_image)
  show "max_x b < min_x b" if "opaque_pixels img = {}"
    using that by (simp add: fields)
  show "min_x b = int (Min (fst ` opaque_pixels img)) \<and>
        max_x b = int (Max (fst ` opaque_pixels img)) \<and>
        min_y b = int (Min (snd ` opaque_pixels img)) \<and>
        max_y b = int (Max (snd ` opaque_pixels img))" if ne: "opaque_pixels img \<noteq> {}"
  proof -
    have fx: "finite (fst ` opaque_pixels img)" "fst ` opaque_pixels img \<noteq> {}"
      and fy: "finite (snd ` opaque_pixels img)" "snd ` opaque_pixels img \<noteq> {}"
      using ne finite_opaque_pixels [of img] by simp_all
    have bx: "\<forall>x\<in>fst ` opaque_pixels img. x < width img"
      and "\<forall>y\<in>snd ` opaque_pixels img. y < height img"
      by (auto simp: opaque_pixels_def)
    then show ?thesis
      unfolding fields
      using Min_insert_above [OF fx] Min_insert_above [OF fy]
        Max_insert_below [OF fx] Max_insert_below [OF fy]
      by simp
  qed
qed

lemma alpha_bounds_in_raster:
  assumes inv: "raster_invariant img"
  shows "opaque_pixels img = {} \<Longrightarrow> alpha_bounds img = Inl (Fail FullyTransparent)"
    and "opaque_pixels img \<noteq> {} \<Longrightarrow>
         alpha_bounds img =
           (case truediv (int (Max (fst ` opaque_pixels img)) - int (Min (fst ` opaque_pixels img)) + 1)
                   (int (width img)) of
              Inl e \<Rightarrow> Inl e
            | Inr coverage_w \<Rightarrow>
                (case truediv (int (Max (snd ` opaque_pixels img))
                                - int (Min (snd ` opaque_pixels img)) + 1) (int (height img)) of
                   Inl e \<Rightarrow> Inl e
                 | Inr coverage_h \<Rightarrow> Inr (width img, height img, coverage_w, coverage_h)))"
proof -
  let ?init = "\<lparr>min_x = int (width img), min_y = int (height img), max_x = - 1, max_y = - 1\<rparr>"
  let ?res = "fold add_pixel (opaque_list img) ?init"
  have scan: "for_each (scan_row (color_type img) (width img)) (enumerate 0 (pixel_rows img)) ?init
              = Inr ?res"
    by (rule scan_in_raster [OF inv])
  show "alpha_bounds img = Inl (Fail FullyTransparent)" if "opaque_pixels img = {}"
    using scanned_bounds(1) [OF that] by (simp add: alpha_bounds_def scan)
  show "alpha_bounds img =
           (case truediv (int (Max (fst ` opaque_pixels img)) - int (Min (fst ` opaque_pixels img)) + 1)
                   (int (width img)) of
              Inl e \<Rightarrow> Inl e
            | Inr coverage_w \<Rightarrow>
                (case truediv (int (Max (snd ` opaque_pixels img))
                                - int (Min (snd ` opaque_pixels img)) + 1) (int (height img)) of
                   Inl e \<Rightarrow> Inl e
                 | Inr coverage_h \<Rightarrow> Inr (width img, height img, coverage_w, coverage_h)))"
    if ne: "opaque_pixels img \<noteq> {}"
  proof -
    note f = scanned_bounds(2) [OF ne]
    have fx: "finite (fst ` opaque_pixels img)" "fst ` opaque_pixels img \<noteq> {}"
      and fy: "finite (snd ` opaque_pixels img)" "snd ` opaque_pixels img \<noteq> {}"
      using ne finite_opaque_pixels [of img] by simp_all
    have "Min (fst ` opaque_pixels img) \<le> Max (fst ` opaque_pixels img)"
      "Min (snd ` opaque_pixels img) \<le> Max (snd ` opaque_pixels img)"
      using fx fy by simp_all
    then show ?thesis
      using f by (simp add: alpha_bounds_def scan cong: sum.case_cong)
  qed
qed

text \<open>
  A width and a height come out of four bytes each, whichever IHDR chunk was read last.
\<close>

lemma be32_less: "be32 b0 b1 b2 b3 < 4294967296"
proof -
  have "unat b0 < 256" "unat b1 < 256" "unat b2 < 256" "unat b3 < 256"
    using unsigned_less [of b0] unsigned_less [of b1] unsigned_less [of b2] unsigned_less [of b3]
    by simp_all
  then show ?thesis unfolding be32_def by linarith
qed

lemma unpack_from_IHDR_fits:
  assumes "unpack_from_IHDR chunk_data = Inr (w, h, rest)"
  shows "w < 4294967296" "h < 4294967296"
  using assms be32_less by (auto simp: unpack_from_IHDR_def split: if_splits)

lemma read_chunks_header_fits:
  assumes "read_chunks data cursor st = Inr st'"
    and "\<forall>w h d c. header st = Some (w, h, d, c) \<longrightarrow> w < 4294967296 \<and> h < 4294967296"
  shows "\<forall>w h d c. header st' = Some (w, h, d, c) \<longrightarrow> w < 4294967296 \<and> h < 4294967296"
proof -
  define P where "P s \<longleftrightarrow>
    (\<forall>w h d c. header s = Some (w, h, d, c) \<longrightarrow> w < 4294967296 \<and> h < (4294967296 :: nat))"
    for s :: chunk_state
  have main: "read_chunks data cursor st = Inr st' \<Longrightarrow> P st \<Longrightarrow> P st'" for cursor st
  proof (induction "length data - cursor" arbitrary: cursor st rule: less_induct)
    case less
    have m: "length data - (12 + (cursor + b)) < length data - cursor"
      if "cursor + 8 \<le> length data" for b
      using that by arith
    have IH: "P st'"
      if "cursor + 8 \<le> length data" "read_chunks data (12 + (cursor + b)) s = Inr st'" "P s"
      for b s
      using less.hyps [OF m [OF that(1)] that(2,3)] .
    have hdr: "P (st\<lparr>header := Some (w, h, d, c)\<rparr>)"
      if "unpack_from_IHDR chunk_data = Inr (w, h, rest)" for w h d c chunk_data rest
      using unpack_from_IHDR_fits [OF that] by (simp add: P_def)
    have idat: "P (st\<lparr>idat_chunks := cs\<rparr>)" for cs
      using less.prems(2) by (simp add: P_def)
    from less.prems(1) show ?case
      apply (subst (asm) read_chunks.simps)
      apply (simp split: if_splits sum.splits prod.splits)
      using IH hdr idat less.prems(2)
          apply blast+
      done
  qed
  from main [OF assms(1)] assms(2) show ?thesis
    unfolding P_def by blast
qed

lemma png_payload_fits:
  assumes "png_payload inflate data = Inr (w, h, ct, bpp, payload)"
  shows "w < 4294967296" "h < 4294967296"
proof -
  from assms obtain st d where r: "read_chunks data 8 \<lparr>header = None, idat_chunks = []\<rparr> = Inr st"
    and h: "header st = Some (w, h, d, ct)"
    by (auto simp: png_payload_def Let_def split: if_splits sum.splits option.splits prod.splits)
  from read_chunks_header_fits [OF r] h show "w < 4294967296" "h < 4294967296"
    by simp_all
qed

lemma decode_png_raster_invariant:
  assumes "decode_png inflate data = Inr img"
  shows "raster_invariant img"
proof -
  from assms obtain w h ct bpp payload rs
    where pay: "png_payload inflate data = Inr (w, h, ct, bpp, payload)"
      and rs: "unfilter_rows bpp (w * bpp) h payload = Inr rs"
      and img: "img = \<lparr>width = w, height = h, color_type = ct, pixel_rows = rs\<rparr>"
    by (auto simp: decode_png_def split: sum.splits prod.splits)
  note facts = png_payload_Inr [OF pay]
  have ok: "\<forall>y<h. scanline_filter payload (w * bpp) y \<le> 4"
  proof (rule ccontr)
    assume "\<not> ?thesis"
    then obtain y where "y < h" "4 < scanline_filter payload (w * bpp) y"
      by (auto simp: not_le)
    from unfilter_rows_unsupported [OF facts(2,3) this] rs show False by simp
  qed
  from unfilter_rows_ok [OF facts(2,3) ok] rs
  have len: "length rs = h" and "\<forall>y<h. row_reconstructed bpp (w * bpp) payload rs y"
    by auto
  then have "\<forall>y<length rs. length (rs ! y) = w * bpp"
    by (simp add: row_reconstructed_def)
  then have "\<forall>row\<in>set rs. length row = w * bpp"
    by (auto simp: in_set_conv_nth)
  with facts(1) len png_payload_fits [OF pay] show ?thesis
    by (simp add: raster_invariant_def img)
qed

text \<open>
  Rounding to the nearest integer moves a number by at most one half and never across an
  integer.
\<close>

lemma round_to_neighbour:
  fixes q :: rat
  assumes "of_int f \<le> q" "q < of_int f + 1"
  shows "\<bar>of_int (if q - of_int f < 1 / 2 then f else if 1 / 2 < q - of_int f then f + 1
            else if even f then f else f + 1) - q\<bar> \<le> 1 / 2"
  using assms by (simp add: abs_if)

lemma round_half_even_near: "\<bar>of_int (round_half_even q) - q\<bar> \<le> 1 / 2"
proof -
  have "of_int \<lfloor>q\<rfloor> \<le> q" "q < of_int \<lfloor>q\<rfloor> + 1"
    by linarith+
  then show ?thesis
    unfolding round_half_even_def Let_def by (rule round_to_neighbour)
qed

lemma round_half_even_le:
  assumes q: "q \<le> of_int N"
  shows "round_half_even q \<le> N"
proof (cases "q = of_int N")
  case True
  then show ?thesis by (simp add: round_half_even_def)
next
  case False
  with q have "q < of_int N" by simp
  then have "\<lfloor>q\<rfloor> < N" by (simp add: floor_less_iff)
  then have "\<lfloor>q\<rfloor> + 1 \<le> N" by simp
  then show ?thesis by (auto simp: round_half_even_def Let_def)
qed

lemma round_half_even_ge:
  assumes "of_int N \<le> q"
  shows "N \<le> round_half_even q"
proof -
  from assms have "N \<le> \<lfloor>q\<rfloor>" by (simp add: le_floor_iff)
  then show ?thesis by (auto simp: round_half_even_def Let_def)
qed

text \<open>
  The exponent of a quotient of two positive integers: the quotient lies from \<open>2 ^ e\<close> up
  to \<open>2 ^ (e + 1)\<close>.
\<close>

lemma bitlen_bounds_rat:
  assumes "0 < n"
  shows "power_int (2 :: rat) (bitlen n - 1) \<le> of_int n"
    and "of_int n < power_int (2 :: rat) (bitlen n)"
proof -
  from bitlen_bounds [OF assms]
  have lo: "2 ^ nat (bitlen n - 1) \<le> n" and hi: "n < 2 ^ nat (bitlen n)" by simp_all
  from assms have b1: "1 \<le> bitlen n" by (auto simp: bitlen_alt_def)
  have "(of_int (2 ^ nat (bitlen n - 1)) :: rat) \<le> of_int n"
    using lo by (simp only: of_int_le_iff)
  then show "power_int (2 :: rat) (bitlen n - 1) \<le> of_int n"
    using b1 by (simp add: power_int_def)
  have "(of_int n :: rat) < of_int (2 ^ nat (bitlen n))"
    using hi by (simp only: of_int_less_iff)
  then show "of_int n < power_int (2 :: rat) (bitlen n)"
    using b1 by (simp add: power_int_def)
qed

lemma quotient_exponent_bounds:
  assumes n: "0 < n" and d: "0 < d"
  shows "power_int (2 :: rat) (quotient_exponent n d) \<le> of_int n / of_int d"
    and "of_int n / of_int d < power_int (2 :: rat) (quotient_exponent n d + 1)"
proof -
  define k where "k = bitlen n - bitlen d"
  have dpos: "(0 :: rat) < of_int d" using d by simp
  note bn = bitlen_bounds_rat [OF n] and bd = bitlen_bounds_rat [OF d]
  have split: "power_int (2 :: rat) (bitlen n - 1) = power_int 2 (k - 1) * power_int 2 (bitlen d)"
    "power_int (2 :: rat) (bitlen n) = power_int 2 (k + 1) * power_int 2 (bitlen d - 1)"
    by (simp_all add: k_def flip: power_int_add)
  have lower: "power_int (2 :: rat) (k - 1) * of_int d \<le> of_int n"
  proof -
    have "power_int (2 :: rat) (k - 1) * of_int d \<le> power_int 2 (k - 1) * power_int 2 (bitlen d)"
      using bd(2) by (intro mult_left_mono) simp_all
    also have "\<dots> = power_int 2 (bitlen n - 1)" by (simp only: split(1))
    also have "\<dots> \<le> of_int n" by (rule bn(1))
    finally show ?thesis .
  qed
  have upper: "of_int n < power_int (2 :: rat) (k + 1) * of_int d"
  proof -
    have "of_int n < power_int (2 :: rat) (bitlen n)" by (rule bn(2))
    also have "\<dots> = power_int 2 (k + 1) * power_int 2 (bitlen d - 1)" by (simp only: split(2))
    also have "\<dots> \<le> power_int 2 (k + 1) * of_int d"
      using bd(1) by (intro mult_left_mono) simp_all
    finally show ?thesis .
  qed
  show "power_int (2 :: rat) (quotient_exponent n d) \<le> of_int n / of_int d"
  proof (cases "of_int n < of_int d * power_int (2 :: rat) k")
    case True
    then have "quotient_exponent n d = k - 1"
      by (simp add: quotient_exponent_def k_def)
    with lower dpos show ?thesis by (simp add: pos_le_divide_eq)
  next
    case False
    then have "quotient_exponent n d = k"
      by (simp add: quotient_exponent_def k_def)
    with False dpos show ?thesis by (simp add: pos_le_divide_eq mult.commute not_less)
  qed
  show "of_int n / of_int d < power_int (2 :: rat) (quotient_exponent n d + 1)"
  proof (cases "of_int n < of_int d * power_int (2 :: rat) k")
    case True
    then have "quotient_exponent n d = k - 1"
      by (simp add: quotient_exponent_def k_def)
    with True dpos show ?thesis by (simp add: pos_divide_less_eq mult.commute)
  next
    case False
    then have "quotient_exponent n d = k"
      by (simp add: quotient_exponent_def k_def)
    with upper dpos show ?thesis by (simp add: pos_divide_less_eq)
  qed
qed

text \<open>
  A part of a whole below \<open>2 ^ 32\<close>: the division returns, its float is above 0 and at most
  1, and it is off the quotient by at most the quotient times \<open>2 ^ - 53\<close>.
\<close>

lemma truediv_unit:
  assumes n: "0 < n" and nd: "n \<le> d" and d32: "d < 4294967296"
  shows "\<exists>r. truediv n d = Inr r \<and> 0 < r \<and> r \<le> 1
           \<and> \<bar>r - of_int n / of_int d\<bar> \<le> of_int n / of_int d / 2 ^ 53"
proof -
  define x :: rat where "x = of_int n / of_int d"
  define e where "e = quotient_exponent n d"
  define q where "q = e - 52"
  define m where "m = round_half_even (of_int n / (of_int d * power_int 2 q))"
  define r where "r = of_int m * power_int (2 :: rat) q"
  from n nd have d: "0 < d" by simp
  have xpos: "0 < x" using n d by (simp add: x_def)
  have x1: "x \<le> 1" using n d nd by (simp add: x_def)
  have lo: "power_int 2 e \<le> x" and hi: "x < power_int 2 (e + 1)"
    unfolding x_def e_def by (rule quotient_exponent_bounds [OF n d])+
  have e0: "e \<le> 0"
  proof (rule ccontr)
    assume "\<not> e \<le> 0"
    then have "1 \<le> e" by simp
    then have "power_int (2 :: rat) 1 \<le> power_int 2 e"
      by (rule power_int_increasing) simp
    with lo x1 show False by simp
  qed
  have e32: "- 32 \<le> e"
  proof (rule ccontr)
    assume "\<not> - 32 \<le> e"
    then have "e + 1 \<le> - 32" by simp
    then have "power_int (2 :: rat) (e + 1) \<le> power_int 2 (- 32)"
      by (rule power_int_increasing) simp
    with hi have "x < 1 / 4294967296" by simp
    moreover have "1 / of_int d \<le> x"
      using n d by (simp add: x_def divide_right_mono)
    moreover have "(1 :: rat) / 4294967296 < 1 / of_int d"
    proof -
      have "(of_int d :: rat) < of_int 4294967296" using d32 by (simp only: of_int_less_iff)
      then show ?thesis using d by (simp add: divide_strict_left_mono)
    qed
    ultimately show False by simp
  qed
  have qmax: "max (e - 52) (- 1074) = q" using e32 by (simp add: q_def)
  have qpos: "(0 :: rat) < power_int 2 q" by (simp add: zero_less_power_int)
  have q0: "q \<le> 0" using e0 by (simp add: q_def)
  have ylo: "1 \<le> x / power_int 2 q"
  proof -
    have "power_int (2 :: rat) q \<le> power_int 2 e"
      by (rule power_int_increasing) (simp_all add: q_def)
    with lo have "power_int 2 q \<le> x" by simp
    with qpos show ?thesis by (simp add: pos_le_divide_eq)
  qed
  have yhi: "x / power_int 2 q \<le> of_int (2 ^ nat (- q))"
  proof -
    have "x / power_int 2 q \<le> 1 / power_int 2 q"
      using x1 qpos by (simp add: divide_right_mono)
    also have "\<dots> = power_int 2 (- q)" by (simp add: power_int_minus_divide)
    also have "\<dots> = of_int (2 ^ nat (- q))" using q0 by (simp add: power_int_nonneg_exp)
    finally show ?thesis .
  qed
  have m_eq: "m = round_half_even (x / power_int 2 q)" by (simp add: m_def x_def)
  have m1: "1 \<le> m" unfolding m_eq by (rule round_half_even_ge) (simp add: ylo)
  have mhi: "m \<le> 2 ^ nat (- q)" unfolding m_eq by (rule round_half_even_le [OF yhi])
  have rpos: "0 < r" using m1 qpos by (simp add: r_def)
  have r1: "r \<le> 1"
  proof -
    have "(of_int m :: rat) \<le> of_int (2 ^ nat (- q))" using mhi by (simp only: of_int_le_iff)
    also have "\<dots> = power_int 2 (- q)" using q0 by (simp add: power_int_nonneg_exp)
    also have "\<dots> = 1 / power_int 2 q" by (simp add: power_int_minus_divide)
    finally show ?thesis using qpos by (simp add: r_def pos_le_divide_eq)
  qed
  have near: "\<bar>r - x\<bar> \<le> x / 2 ^ 53"
  proof -
    have "\<bar>of_int m - x / power_int 2 q\<bar> \<le> 1 / 2"
      unfolding m_eq by (rule round_half_even_near)
    then have "\<bar>of_int m - x / power_int 2 q\<bar> * power_int 2 q \<le> 1 / 2 * power_int 2 q"
      using qpos by (simp add: mult_right_mono)
    moreover have "\<bar>of_int m - x / power_int 2 q\<bar> * power_int 2 q = \<bar>r - x\<bar>"
    proof -
      have "\<bar>of_int m - x / power_int 2 q\<bar> * power_int 2 q
              = \<bar>(of_int m - x / power_int 2 q) * power_int 2 q\<bar>"
        using qpos by (simp add: abs_mult)
      also have "(of_int m - x / power_int 2 q) * power_int 2 q = r - x"
        using qpos by (simp add: r_def algebra_simps)
      finally show ?thesis .
    qed
    moreover have "1 / 2 * power_int (2 :: rat) q = power_int 2 e / 2 ^ 53"
    proof -
      have "power_int (2 :: rat) q = power_int 2 e / power_int 2 52"
        unfolding q_def by (rule power_int_diff) simp
      then show ?thesis by simp
    qed
    moreover have "power_int 2 e / 2 ^ 53 \<le> x / 2 ^ 53"
      using lo by (simp add: divide_right_mono)
    ultimately show ?thesis by simp
  qed
  have big: "\<not> (2 :: rat) ^ 1024 \<le> r"
  proof -
    have "(1 :: rat) < 2 ^ 1024" by (rule one_less_power) simp_all
    with r1 show ?thesis by simp
  qed
  have r_eq: "of_int (round_half_even (of_int n / (of_int d * power_int 2 q))) * power_int 2 q = r"
    by (simp only: r_def m_def)
  have "truediv n d = Inr r"
    using n d big
    by (simp add: truediv_def Let_def qmax e_def [symmetric] r_eq)
  with rpos r1 near show ?thesis by (auto simp: x_def)
qed

text \<open>The floats of 1/1 and 1/2, which are exact, and of 1/3, which is not.\<close>

lemma bitlen_1: "bitlen 1 = 1"
  by (simp add: bitlen_alt_def)

lemma bitlen_2: "bitlen 2 = 2"
  by (simp add: bitlen_alt_def)

lemma bitlen_3: "bitlen 3 = 2"
  by (subst compute_bitlen) (simp add: bitlen_1)

lemma truediv_1_1: "truediv 1 1 = Inr 1"
  by (simp add: truediv_def quotient_exponent_def round_half_even_def bitlen_1 Let_def)

lemma truediv_1_2: "truediv 1 2 = Inr (1 / 2)"
  by (simp add: truediv_def quotient_exponent_def round_half_even_def bitlen_1 bitlen_2 Let_def)

lemma truediv_1_3: "truediv 1 3 = Inr (6004799503160661 / 18014398509481984)"
proof -
  have "\<lfloor>(18014398509481984 :: rat) / 3\<rfloor> = 6004799503160661"
    by (simp add: floor_eq_iff)
  then show ?thesis
    by (simp add: truediv_def quotient_exponent_def round_half_even_def bitlen_1 bitlen_3 Let_def)
qed

lemma one_opaque_one_transparent:
  assumes "a \<noteq> 0"
  shows "alpha_bounds \<lparr>width = 2, height = 1, color_type = 6,
                        pixel_rows = [[r, g, b, a, r', g', b', 0]]\<rparr> = Inr (2, 1, 1 / 2, 1)"
proof -
  let ?img = "\<lparr>width = 2, height = 1, color_type = 6,
               pixel_rows = [[r, g, b, a, r', g', b', 0]]\<rparr>"
  have inv: "raster_invariant ?img"
    by (simp add: raster_invariant_def channels_by_color_type_def)
  have a: "0 < uint a" using assms by (simp add: word_greater_zero_iff uint_nonnegative less_le uint_0_iff)
  have "alpha ?img 0 0 = uint a" "alpha ?img 1 0 = 0"
    by (simp_all add: alpha_def)
  with a have op: "opaque_pixels ?img = {(0, 0)}"
    by (auto simp: opaque_pixels_def less_Suc_eq numeral_2_eq_2)
  from alpha_bounds_in_raster(2) [OF inv] op show ?thesis
    by (simp add: truediv_1_1 truediv_1_2)
qed

lemma alpha_bounds_ratios:
  assumes inv: "raster_invariant img" and ne: "opaque_pixels img \<noteq> {}"
  shows "\<exists>coverage_w coverage_h.
                alpha_bounds img = Inr (width img, height img, coverage_w, coverage_h)
              \<and> truediv (int (Max (fst ` opaque_pixels img))
                           - int (Min (fst ` opaque_pixels img)) + 1) (int (width img))
                  = Inr coverage_w
              \<and> truediv (int (Max (snd ` opaque_pixels img))
                           - int (Min (snd ` opaque_pixels img)) + 1) (int (height img))
                  = Inr coverage_h
              \<and> \<bar>coverage_w - of_int (int (Max (fst ` opaque_pixels img))
                                       - int (Min (fst ` opaque_pixels img)) + 1)
                                / of_int (int (width img))\<bar>
                  \<le> of_int (int (Max (fst ` opaque_pixels img))
                              - int (Min (fst ` opaque_pixels img)) + 1)
                       / of_int (int (width img)) / 2 ^ 53
              \<and> \<bar>coverage_h - of_int (int (Max (snd ` opaque_pixels img))
                                       - int (Min (snd ` opaque_pixels img)) + 1)
                                / of_int (int (height img))\<bar>
                  \<le> of_int (int (Max (snd ` opaque_pixels img))
                              - int (Min (snd ` opaque_pixels img)) + 1)
                       / of_int (int (height img)) / 2 ^ 53
              \<and> 0 < coverage_w \<and> coverage_w \<le> 1 \<and> 0 < coverage_h \<and> coverage_h \<le> 1"
proof -
  let ?X = "fst ` opaque_pixels img" and ?Y = "snd ` opaque_pixels img"
  have fx: "finite ?X" "?X \<noteq> {}" and fy: "finite ?Y" "?Y \<noteq> {}"
    using ne finite_opaque_pixels [of img] by simp_all
  have "Max ?X \<in> ?X" "Max ?Y \<in> ?Y"
    by (rule Max_in [OF fx], rule Max_in [OF fy])
  then have hi: "Max ?X < width img" "Max ?Y < height img"
    by (auto simp: opaque_pixels_def)
  have lo: "Min ?X \<le> Max ?X" "Min ?Y \<le> Max ?Y"
    using fx fy by simp_all
  from inv have fits: "width img < 4294967296" "height img < 4294967296"
    by (simp_all add: raster_invariant_def)
  have "0 < int (Max ?X) - int (Min ?X) + 1" "int (Max ?X) - int (Min ?X) + 1 \<le> int (width img)"
    "int (width img) < 4294967296"
    using lo(1) hi(1) fits(1) by simp_all
  from truediv_unit [OF this]
  obtain cw where cw: "truediv (int (Max ?X) - int (Min ?X) + 1) (int (width img)) = Inr cw"
    "0 < cw" "cw \<le> 1"
    "\<bar>cw - of_int (int (Max ?X) - int (Min ?X) + 1) / of_int (int (width img))\<bar>
       \<le> of_int (int (Max ?X) - int (Min ?X) + 1) / of_int (int (width img)) / 2 ^ 53"
    by blast
  have "0 < int (Max ?Y) - int (Min ?Y) + 1" "int (Max ?Y) - int (Min ?Y) + 1 \<le> int (height img)"
    "int (height img) < 4294967296"
    using lo(2) hi(2) fits(2) by simp_all
  from truediv_unit [OF this]
  obtain ch where ch: "truediv (int (Max ?Y) - int (Min ?Y) + 1) (int (height img)) = Inr ch"
    "0 < ch" "ch \<le> 1"
    "\<bar>ch - of_int (int (Max ?Y) - int (Min ?Y) + 1) / of_int (int (height img))\<bar>
       \<le> of_int (int (Max ?Y) - int (Min ?Y) + 1) / of_int (int (height img)) / 2 ^ 53"
    by blast
  have "alpha_bounds img = Inr (width img, height img, cw, ch)"
    using alpha_bounds_in_raster(2) [OF inv ne] by (simp add: cw(1) ch(1))
  with cw ch show ?thesis by blast
qed

text \<open>
  Claim C8. For every decoded image (an image with the invariant above), the analysis fails
  with the fully-transparent cause exactly when no pixel has an alpha value above 0.
  Otherwise it returns the width, the height and the two ratios
  \<open>(max_x - min_x + 1) / width\<close> and \<open>(max_y - min_y + 1) / height\<close>, where \<open>min_x\<close>,
  \<open>max_x\<close>, \<open>min_y\<close> and \<open>max_y\<close> are the least and greatest column and row of the pixels
  with alpha above 0, and \<open>/\<close> is the division of Python: each ratio is the float that
  \<open>truediv\<close> returns, which is within the quotient times \<open>2 ^ - 53\<close> of the quotient of the
  two integers, above 0 and at most 1. An image of two by one pixels in truecolour with
  alpha, the first pixel with an alpha other than 0 and the second with alpha 0, gives the
  floats 1/2 and 1.
\<close>

theorem alpha_bounds_coverage:
  assumes "raster_invariant img"
  shows "(alpha_bounds img = Inl (Fail FullyTransparent) \<longleftrightarrow> opaque_pixels img = {})
       \<and> (opaque_pixels img \<noteq> {} \<longrightarrow>
            (\<exists>coverage_w coverage_h.
                alpha_bounds img = Inr (width img, height img, coverage_w, coverage_h)
              \<and> truediv (int (Max (fst ` opaque_pixels img))
                           - int (Min (fst ` opaque_pixels img)) + 1) (int (width img))
                  = Inr coverage_w
              \<and> truediv (int (Max (snd ` opaque_pixels img))
                           - int (Min (snd ` opaque_pixels img)) + 1) (int (height img))
                  = Inr coverage_h
              \<and> \<bar>coverage_w - of_int (int (Max (fst ` opaque_pixels img))
                                       - int (Min (fst ` opaque_pixels img)) + 1)
                                / of_int (int (width img))\<bar>
                  \<le> of_int (int (Max (fst ` opaque_pixels img))
                              - int (Min (fst ` opaque_pixels img)) + 1)
                       / of_int (int (width img)) / 2 ^ 53
              \<and> \<bar>coverage_h - of_int (int (Max (snd ` opaque_pixels img))
                                       - int (Min (snd ` opaque_pixels img)) + 1)
                                / of_int (int (height img))\<bar>
                  \<le> of_int (int (Max (snd ` opaque_pixels img))
                              - int (Min (snd ` opaque_pixels img)) + 1)
                       / of_int (int (height img)) / 2 ^ 53
              \<and> 0 < coverage_w \<and> coverage_w \<le> 1 \<and> 0 < coverage_h \<and> coverage_h \<le> 1))
       \<and> (a \<noteq> 0 \<longrightarrow>
            alpha_bounds \<lparr>width = 2, height = 1, color_type = 6,
                          pixel_rows = [[r, g, b, a, r', g', b', 0]]\<rparr> = Inr (2, 1, 1 / 2, 1))"
    (is "?iff \<and> (_ \<longrightarrow> ?ratios) \<and> (_ \<longrightarrow> ?example)")
proof (intro conjI impI)
  show ?iff
  proof (cases "opaque_pixels img = {}")
    case True
    with alpha_bounds_in_raster(1) [OF assms] show ?thesis by simp
  next
    case False
    from alpha_bounds_ratios [OF assms False]
    obtain cw ch where "alpha_bounds img = Inr (width img, height img, cw, ch)" by blast
    with False show ?thesis by simp
  qed
next
  assume "opaque_pixels img \<noteq> {}"
  with assms show ?ratios by (rule alpha_bounds_ratios)
next
  assume "a \<noteq> 0"
  then show ?example by (rule one_opaque_one_transparent)
qed

theorem alpha_bounds_coverage_witness:
  "raster_invariant \<lparr>width = 2, height = 1, color_type = 6,
                     pixel_rows = [[10, 20, 30, 255, 40, 50, 60, 0]]\<rparr>
   \<and> alpha_bounds \<lparr>width = 2, height = 1, color_type = 6,
                    pixel_rows = [[10, 20, 30, 255, 40, 50, 60, 0]]\<rparr> = Inr (2, 1, 1 / 2, 1)
   \<and> opaque_pixels \<lparr>width = 2, height = 1, color_type = 6,
                     pixel_rows = [[10, 20, 30, 255, 40, 50, 60, 0]]\<rparr> \<noteq> {}
   \<and> raster_invariant \<lparr>width = 3, height = 1, color_type = 6,
                       pixel_rows = [[10, 20, 30, 255, 40, 50, 60, 0, 70, 80, 90, 0]]\<rparr>
   \<and> opaque_pixels \<lparr>width = 3, height = 1, color_type = 6,
                     pixel_rows = [[10, 20, 30, 255, 40, 50, 60, 0, 70, 80, 90, 0]]\<rparr> = {(0, 0)}
   \<and> alpha_bounds \<lparr>width = 3, height = 1, color_type = 6,
                    pixel_rows = [[10, 20, 30, 255, 40, 50, 60, 0, 70, 80, 90, 0]]\<rparr>
       = Inr (3, 1, 6004799503160661 / 18014398509481984, 1)
   \<and> raster_invariant \<lparr>width = 1, height = 1, color_type = 4, pixel_rows = [[77, 0]]\<rparr>
   \<and> alpha_bounds \<lparr>width = 1, height = 1, color_type = 4, pixel_rows = [[77, 0]]\<rparr>
       = Inl (Fail FullyTransparent)"
proof -
  let ?img = "\<lparr>width = 2, height = 1, color_type = 6,
               pixel_rows = [[10, 20, 30, 255, 40, 50, 60, 0]]\<rparr>"
  let ?third = "\<lparr>width = 3, height = 1, color_type = 6,
               pixel_rows = [[10, 20, 30, 255, 40, 50, 60, 0, 70, 80, 90, 0]]\<rparr>"
  let ?dark = "\<lparr>width = 1, height = 1, color_type = 4, pixel_rows = [[77, 0]]\<rparr>"
  have inv: "raster_invariant ?img" and inv3: "raster_invariant ?third"
    and inv': "raster_invariant ?dark"
    by (simp_all add: raster_invariant_def channels_by_color_type_def)
  note t = alpha_bounds_coverage [OF inv, of 255 10 20 30 40 50 60]
  from t have ex: "alpha_bounds ?img = Inr (2, 1, 1 / 2, 1)" by simp
  with t have ne: "opaque_pixels ?img \<noteq> {}" by auto
  have "alpha ?third 0 0 = 255" "alpha ?third (Suc 0) 0 = 0" "alpha ?third (Suc (Suc 0)) 0 = 0"
    by (simp_all add: alpha_def)
  then have op3: "opaque_pixels ?third = {(0, 0)}"
    by (auto simp: opaque_pixels_def less_Suc_eq numeral_3_eq_3)
  then have "opaque_pixels ?third \<noteq> {}" by simp
  with alpha_bounds_coverage [OF inv3, of 255 10 20 30 40 50 60]
  obtain cw ch where ret: "alpha_bounds ?third = Inr (3, 1, cw, ch)"
    and "truediv (int (Max (fst ` opaque_pixels ?third))
                   - int (Min (fst ` opaque_pixels ?third)) + 1) 3 = Inr cw"
    and "truediv (int (Max (snd ` opaque_pixels ?third))
                   - int (Min (snd ` opaque_pixels ?third)) + 1) 1 = Inr ch"
    by auto
  then have "truediv 1 3 = Inr cw" "truediv 1 1 = Inr ch"
    unfolding op3 by simp_all
  with ret have ex3: "alpha_bounds ?third = Inr (3, 1, 6004799503160661 / 18014398509481984, 1)"
    by (simp add: truediv_1_1 truediv_1_3)
  have "opaque_pixels ?dark = {}"
    by (auto simp: opaque_pixels_def alpha_def)
  with alpha_bounds_coverage [OF inv', of 255 10 20 30 40 50 60]
  have "alpha_bounds ?dark = Inl (Fail FullyTransparent)" by blast
  with inv inv3 inv' ex ne op3 ex3 show ?thesis by blast
qed

subsection \<open>How the decoder can end\<close>

text \<open>
  Claim C7 says the decoder returns an image or fails with \<^verbatim>\<open>fail\<close>, on every input. The
  chunk loop unpacks the thirteen header bytes from the data of any chunk of type IHDR
  without looking at the length of that data: on the signature followed by an IHDR chunk
  of length 0, \<^verbatim>\<open>struct.unpack_from\<close> raises \<^verbatim>\<open>struct.error\<close>, which is neither, whatever
  \<^verbatim>\<open>zlib.decompress\<close> does.
\<close>

theorem decode_truncated_header:
  "decode_png_rgba_alpha_bounds inflate (PNG_SIGNATURE @ [0, 0, 0, 0] @ IHDR) = Inl StructError"
proof -
  define data where "data = PNG_SIGNATURE @ [0, 0, 0, 0] @ IHDR"
  have len: "length data = 16" and sig: "take 8 data = PNG_SIGNATURE"
    by (simp_all add: data_def PNG_SIGNATURE_def IHDR_def)
  have l: "unpack_from_I_be data 8 = Inr 0"
    by (simp add: data_def unpack_from_I_be_def PNG_SIGNATURE_def IHDR_def be32_def)
  have t: "py_slice data 12 16 = IHDR"
    by (simp add: data_def py_slice_def PNG_SIGNATURE_def IHDR_def)
  have d: "unpack_from_IHDR (py_slice data 16 16) = Inl StructError"
    by (simp add: py_slice_def unpack_from_IHDR_def)
  have "read_chunks data 8 \<lparr>header = None, idat_chunks = []\<rparr> = Inl StructError"
    by (subst read_chunks.simps) (simp add: len l t d)
  then have "decode_png_rgba_alpha_bounds inflate data = Inl StructError"
    by (simp add: decode_png_rgba_alpha_bounds_def decode_png_def png_payload_def len sig)
  then show ?thesis by (simp only: data_def)
qed

subsection \<open>The Paeth predictor\<close>

text \<open>
  Claim C2. For all values \<open>a\<close>, \<open>b\<close>, \<open>c\<close> (bytes in particular), with \<open>p = a + b - c\<close>,
  \<open>pa = |p - a|\<close>, \<open>pb = |p - b|\<close> and \<open>pc = |p - c|\<close>, the Paeth predictor returns \<open>a\<close>
  if \<open>pa \<le> pb\<close> and \<open>pa \<le> pc\<close>, else \<open>b\<close> if \<open>pb \<le> pc\<close>, else \<open>c\<close>. In particular
  \<open>paeth(10, 20, 15) = 15\<close> and \<open>paeth(0, 0, 0) = 0\<close>, and every three-way tie of the
  distances resolves to \<open>a\<close>.
\<close>

theorem paeth_predictor_rule:
  "paeth_predictor a b c =
     (case paeth_distances a b c of
        (pa, pb, pc) \<Rightarrow> if pa \<le> pb \<and> pa \<le> pc then a else if pb \<le> pc then b else c)
   \<and> paeth_predictor 10 20 15 = 15
   \<and> paeth_predictor 0 0 0 = 0
   \<and> (case paeth_distances a b c of
        (pa, pb, pc) \<Rightarrow> pa = pb \<and> pb = pc \<longrightarrow> paeth_predictor a b c = a)"
  by (simp add: paeth_predictor_def paeth_distances_def Let_def)

theorem paeth_predictor_rule_witness:
  "paeth_distances 0 0 0 = (0, 0, 0) \<and> paeth_predictor 0 0 0 = 0
   \<and> paeth_distances 10 20 15 = (5, 5, 0) \<and> paeth_predictor 10 20 15 = 15"
  using paeth_predictor_rule [of 0 0 0] paeth_predictor_rule [of 10 20 15]
  by (simp add: paeth_distances_def)

end
